theory Spec2Isabelle
  imports Complex_Main
begin

section \<open>JavaScript values used by game-of-life.js\<close>

text \<open>
  The engine of \<^verbatim>\<open>game-of-life.js\<close> (v0.2.3) keeps its cells in a JavaScript array of
  columns, \<^verbatim>\<open>this.population[x][y]\<close>. A JavaScript array is modelled as a list of optional
  entries: \<open>None\<close> is a hole, an index that was never written. Reading a hole, an index
  out of range, a negative index or the index \<^verbatim>\<open>NaN\<close> gives \<^verbatim>\<open>undefined\<close>, which is
  \<open>None\<close> as well. Writing past the end extends the array and leaves holes in between.
  Indexing \<^verbatim>\<open>undefined\<close> and, since the file is in strict mode, creating a property on
  a primitive value raise a \<^verbatim>\<open>TypeError\<close>.
\<close>

datatype error = TypeError | NonFiniteLength

type_synonym 'a jsarray = "'a option list"

text \<open>A cell is \<^verbatim>\<open>true\<close>, \<^verbatim>\<open>false\<close> or \<^verbatim>\<open>undefined\<close> (\<open>None\<close>).\<close>

type_synonym column = "bool jsarray"

type_synonym grid = "column jsarray"

text \<open>\<^verbatim>\<open>a[k]\<close> for a number \<open>k\<close>; \<open>None\<close> as the index is \<^verbatim>\<open>NaN\<close>.\<close>

definition arr_get :: "'a jsarray \<Rightarrow> int option \<Rightarrow> 'a option" where
  "arr_get a k =
     (case k of
        None \<Rightarrow> None
      | Some i \<Rightarrow> if 0 \<le> i \<and> i < int (length a) then a ! nat i else None)"

text \<open>\<^verbatim>\<open>a[k] = v\<close> for a loop index \<open>k\<close>.\<close>

definition arr_set :: "'a jsarray \<Rightarrow> nat \<Rightarrow> 'a \<Rightarrow> 'a jsarray" where
  "arr_set a k v =
     (if k < length a then a[k := Some v]
      else a @ replicate (k - length a) None @ [Some v])"

text \<open>The keys \<^verbatim>\<open>for (var key in a)\<close> visits, each with \<^verbatim>\<open>a[key]\<close>: holes are skipped.\<close>

definition own_entries :: "'a jsarray \<Rightarrow> (nat \<times> 'a) list" where
  "own_entries a =
     List.map_filter (\<lambda>(k, e). map_option (Pair k) e) (zip [0..<length a] a)"

text \<open>Truthiness of a cell: only \<^verbatim>\<open>true\<close> passes an \<^verbatim>\<open>if\<close>.\<close>

definition truthy :: "bool option \<Rightarrow> bool" where
  "truthy c = (c = Some True)"

text \<open>
  The remainder operator \<^verbatim>\<open>a % b\<close> on integers: the result has the sign of the dividend,
  and a zero divisor gives \<^verbatim>\<open>NaN\<close>.
\<close>

definition js_rem :: "int \<Rightarrow> int \<Rightarrow> int option" where
  "js_rem a b = (if b = 0 then None else Some (sgn a * (\<bar>a\<bar> mod \<bar>b\<bar>)))"

text \<open>
  The same operator on numbers that need not be integers, for a nonzero divisor. Its
  result on two binary64 values is a binary64 value: nothing is rounded.
\<close>

definition js_fmod :: "real \<Rightarrow> real \<Rightarrow> real" where
  "js_fmod a b =
     a - b * real_of_int (if 0 \<le> a / b then \<lfloor>a / b\<rfloor> else \<lceil>a / b\<rceil>)"

text \<open>
  A number is a binary64 value, and \<^verbatim>\<open>a * b\<close> is the exact product rounded to the nearest
  of them, a tie going to the even significand. \<open>binexp x 0\<close> is the binary exponent \<open>e\<close> of
  a positive \<open>x\<close>, found by halving or doubling \<open>x\<close> into \<open>[1, 2)\<close> and not taken below
  \<open>-1022\<close>, where the subnormal values begin; the values around \<open>x\<close> are the multiples of
  \<open>2\<close> to the \<open>e - 52\<close>. \<open>fl64 x\<close> is that rounding of the real number \<open>x\<close>, for \<open>x\<close> below
  the overflow threshold, which no product here reaches.
\<close>

function binexp :: "real \<Rightarrow> int \<Rightarrow> int" where
  "binexp x e =
     (if 2 \<le> x then binexp (x / 2) (e + 1)
      else if 0 < x \<and> x < 1 \<and> - 1022 < e then binexp (x * 2) (e - 1)
      else e)"
  by pat_completeness auto
termination
proof (relation "measures [\<lambda>(x, e). nat \<lfloor>log 2 (max x 1)\<rfloor>, \<lambda>(x, e). nat (e + 1022)]")
  show "wf (measures [\<lambda>(x, e). nat \<lfloor>log 2 (max x 1)\<rfloor>, \<lambda>(x, e). nat (e + 1022)])"
    by simp
next
  fix x :: real and e :: int
  assume x: "2 \<le> x"
  have "log 2 (x / 2) = log 2 x - 1" using x by (simp add: log_divide)
  moreover have "1 \<le> log 2 x" using x by (simp add: le_log_iff)
  ultimately have "nat \<lfloor>log 2 (x / 2)\<rfloor> < nat \<lfloor>log 2 x\<rfloor>" by (simp add: nat_less_iff)
  with x show "((x / 2, e + 1), (x, e))
      \<in> measures [\<lambda>(x, e). nat \<lfloor>log 2 (max x 1)\<rfloor>, \<lambda>(x, e). nat (e + 1022)]"
    by (simp add: max_def)
next
  fix x :: real and e :: int
  assume "\<not> 2 \<le> x" and x: "0 < x \<and> x < 1 \<and> - 1022 < e"
  have "\<lfloor>log 2 (max (x * 2) 1)\<rfloor> = 0"
  proof (cases "x * 2 \<le> 1")
    case True
    then show ?thesis by (simp add: max_def)
  next
    case False
    then have "\<lfloor>log 2 (x * 2)\<rfloor> = 0"
      using x by (subst floor_log_eq_powr_iff) simp_all
    with False show ?thesis by (simp add: max_def)
  qed
  with x show "((x * 2, e - 1), (x, e))
      \<in> measures [\<lambda>(x, e). nat \<lfloor>log 2 (max x 1)\<rfloor>, \<lambda>(x, e). nat (e + 1022)]"
    by (simp add: max_def)
qed

declare binexp.simps [simp del]

definition round_even :: "real \<Rightarrow> int" where
  "round_even q =
     (let n = \<lfloor>q\<rfloor>; d = q - real_of_int n
      in if d < 1 / 2 then n else if 1 / 2 < d then n + 1 else if even n then n else n + 1)"

definition fl64 :: "real \<Rightarrow> real" where
  "fl64 x =
     (if x = 0 then 0
      else
        let e = binexp \<bar>x\<bar> 0;
            u = 2 powi (e - 52)
        in sgn x * real_of_int (round_even (\<bar>x\<bar> / u)) * u)"

text \<open>Sequencing of calls that may throw.\<close>

definition bindE :: "error + 'a \<Rightarrow> ('a \<Rightarrow> error + 'b) \<Rightarrow> error + 'b" where
  "bindE m f = (case m of Inl e \<Rightarrow> Inl e | Inr v \<Rightarrow> f v)"

text \<open>A \<^verbatim>\<open>for\<close> loop over the given indices; an exception in the body leaves the loop.\<close>

fun forM :: "'i list \<Rightarrow> ('i \<Rightarrow> 's \<Rightarrow> error + 's) \<Rightarrow> 's \<Rightarrow> error + 's" where
  "forM [] body s = Inr s"
| "forM (i # ixs) body s =
     (case body i s of Inl e \<Rightarrow> Inl e | Inr s' \<Rightarrow> forM ixs body s')"

section \<open>The game object\<close>

record settings =
  cellSize :: nat
  colors :: "string list"
  colorEmpty :: string
  transparent :: bool
  speed :: nat
  onClick :: bool

text \<open>The options a caller passes: every key may be absent.\<close>

record options =
  opt_cellSize :: "nat option"
  opt_colors :: "string list option"
  opt_colorEmpty :: "string option"
  opt_transparent :: "bool option"
  opt_speed :: "nat option"
  opt_onClick :: "bool option"

definition defaults :: settings where
  "defaults =
     \<lparr>cellSize = 8,
      colors = [''#490D7F'', ''#B666FF'', ''#921AFF'', ''#5B337F'', ''#7515CC''],
      colorEmpty = ''#fafafa'',
      transparent = True,
      speed = 100,
      onClick = False\<rparr>"

text \<open>
  What \<^verbatim>\<open>this.future\<close> can hold: nothing before the first step, a grid, or a primitive
  boolean (the value \<^verbatim>\<open>extend(true, ...)\<close> returns).
\<close>

datatype buffer = Undefined | Primitive bool | Grid grid

text \<open>A call of one of the two rendering methods; \<open>Populate\<close> carries the palette index drawn.\<close>

datatype call = Populate nat nat int | Kill nat nat

text \<open>
  The fields of a \<^verbatim>\<open>GameOfLife\<close> object, and with them the two things of its environment
  that its methods touch: the source \<^verbatim>\<open>Math.random()\<close> draws from (\<open>rnd\<close>, read at
  \<open>rnd_pos\<close>) and the rendering calls made on the canvas so far (\<open>calls\<close>). \<open>alive\<close> is
  \<^verbatim>\<open>undefined\<close> until the first \<^verbatim>\<open>toggle\<close>; it is only ever tested, so \<open>False\<close> stands for
  both. \<open>timer\<close> tells whether an interval timer is scheduled.
\<close>

record game =
  settings :: settings
  xLength :: nat
  yLength :: nat
  population :: grid
  future :: buffer
  alive :: bool
  timer :: bool
  rnd :: "nat \<Rightarrow> real"
  rnd_pos :: nat
  calls :: "call list"

text \<open>The canvas element \<^verbatim>\<open>document.querySelector\<close> found.\<close>

record element =
  nodeName :: string
  width :: nat
  height :: nat

text \<open>\<^verbatim>\<open>this.extend({}, defaults, options)\<close>: the keys of \<open>options\<close> override the defaults.\<close>

definition extend_settings :: "settings \<Rightarrow> options option \<Rightarrow> settings" where
  "extend_settings d opts =
     (case opts of
        None \<Rightarrow> d
      | Some o' \<Rightarrow>
          \<lparr>cellSize = (case opt_cellSize o' of None \<Rightarrow> cellSize d | Some v \<Rightarrow> v),
           colors = (case opt_colors o' of None \<Rightarrow> colors d | Some v \<Rightarrow> v),
           colorEmpty = (case opt_colorEmpty o' of None \<Rightarrow> colorEmpty d | Some v \<Rightarrow> v),
           transparent = (case opt_transparent o' of None \<Rightarrow> transparent d | Some v \<Rightarrow> v),
           speed = (case opt_speed o' of None \<Rightarrow> speed d | Some v \<Rightarrow> v),
           onClick = (case opt_onClick o' of None \<Rightarrow> onClick d | Some v \<Rightarrow> v)\<rparr>)"

text \<open>
  \<^verbatim>\<open>init\<close>: the grid is \<open>floor(width / cellSize)\<close> by \<open>floor(height / cellSize)\<close>, and
  \<open>population\<close> gets one empty column per \<open>x\<close>. No dimension is checked. With
  \<open>cellSize = 0\<close> the quotients are \<^verbatim>\<open>Infinity\<close> or \<^verbatim>\<open>NaN\<close>: there is no grid of a finite
  size, and the model stops there with \<open>NonFiniteLength\<close>. The click handler \<^verbatim>\<open>init\<close> may
  install touches none of the fields below.
\<close>

definition init :: "element \<Rightarrow> settings \<Rightarrow> (nat \<Rightarrow> real) \<Rightarrow> error + game" where
  "init el st r =
     (if cellSize st = 0 then Inl NonFiniteLength
      else
        let xl = width el div cellSize st;
            yl = height el div cellSize st
        in Inr \<lparr>settings = st, xLength = xl, yLength = yl,
                population = fold (\<lambda>i p. arr_set p i []) [0..<xl] [],
                future = Undefined, alive = False, timer = False,
                rnd = r, rnd_pos = 0, calls = []\<rparr>)"

text \<open>
  The constructor. A selector that matches nothing gives \<^verbatim>\<open>null\<close>, whose \<^verbatim>\<open>nodeName\<close>
  cannot be read; an element that is no canvas leaves the object without a grid.
\<close>

datatype created = NoCanvas | Instance game

definition GameOfLife ::
  "element option \<Rightarrow> options option \<Rightarrow> (nat \<Rightarrow> real) \<Rightarrow> error + created" where
  "GameOfLife el opts r =
     (case el of
        None \<Rightarrow> Inl TypeError
      | Some e \<Rightarrow>
          if nodeName e \<noteq> ''CANVAS'' then Inr NoCanvas
          else bindE (init e (extend_settings defaults opts) r) (\<lambda>g. Inr (Instance g)))"

section \<open>Rendering calls and the timer\<close>

text \<open>
  \<^verbatim>\<open>populate(x, y)\<close> draws a palette index from \<^verbatim>\<open>Math.random()\<close> and paints the cell;
  \<^verbatim>\<open>kill(x, y)\<close> erases it. Both touch the canvas only, which is recorded as the call.
\<close>

definition populate :: "game \<Rightarrow> nat \<Rightarrow> nat \<Rightarrow> game" where
  "populate g x y =
     (let color = \<lfloor>fl64 (rnd g (rnd_pos g) * real (length (colors (settings g))))\<rfloor>
      in g\<lparr>rnd_pos := Suc (rnd_pos g), calls := calls g @ [Populate x y color]\<rparr>)"

definition kill :: "game \<Rightarrow> nat \<Rightarrow> nat \<Rightarrow> game" where
  "kill g x y = g\<lparr>calls := calls g @ [Kill x y]\<rparr>"

definition toggle :: "game \<Rightarrow> game" where
  "toggle g =
     (if \<not> alive g then g\<lparr>timer := True, alive := True\<rparr>
      else g\<lparr>timer := False, alive := False\<rparr>)"

section \<open>Counting neighbours and the rule\<close>

text \<open>
  \<^verbatim>\<open>neighbours(x, y)\<close>: the nine cells around and at \<open>(x, y)\<close>, each index wrapped with
  \<^verbatim>\<open>(x + i + this.xLength) % this.xLength\<close>, then the cell itself taken off again, read at
  \<open>(x, y)\<close> as given.
\<close>

definition neighbours :: "game \<Rightarrow> int \<Rightarrow> int \<Rightarrow> error + int" where
  "neighbours g x y =
     bindE
       (forM [-1, 0, 1] (\<lambda>i. forM [-1, 0, 1] (\<lambda>j count.
          let t = js_rem (x + i + int (xLength g)) (int (xLength g));
              s = js_rem (y + j + int (yLength g)) (int (yLength g))
          in case arr_get (population g) t of
               None \<Rightarrow> Inl TypeError
             | Some col \<Rightarrow> Inr (if truthy (arr_get col s) then count + 1 else count))) 0)
       (\<lambda>count.
          case arr_get (population g) (Some x) of
            None \<Rightarrow> Inl TypeError
          | Some col \<Rightarrow> Inr (if truthy (arr_get col (Some y)) then count - 1 else count))"

text \<open>\<^verbatim>\<open>this.future[x][y] = v\<close>.\<close>

definition future_set :: "game \<Rightarrow> nat \<Rightarrow> nat \<Rightarrow> bool \<Rightarrow> error + game" where
  "future_set g x y v =
     (case future g of
        Grid f \<Rightarrow>
          (case arr_get f (Some (int x)) of
             None \<Rightarrow> Inl TypeError
           | Some col \<Rightarrow> Inr (g\<lparr>future := Grid (f[x := Some (arr_set col y v)])\<rparr>))
      | _ \<Rightarrow> Inl TypeError)"

text \<open>\<^verbatim>\<open>this.population[x][y] = v\<close>.\<close>

definition population_set :: "game \<Rightarrow> nat \<Rightarrow> nat \<Rightarrow> bool \<Rightarrow> error + game" where
  "population_set g x y v =
     (case arr_get (population g) (Some (int x)) of
        None \<Rightarrow> Inl TypeError
      | Some col \<Rightarrow> Inr (g\<lparr>population := (population g)[x := Some (arr_set col y v)]\<rparr>))"

text \<open>
  \<^verbatim>\<open>live(x, y)\<close>: a live cell with fewer than two or more than three neighbours dies in
  \<open>future\<close>, any cell with exactly three is set alive there, and nothing is written
  otherwise.
\<close>

definition live :: "game \<Rightarrow> nat \<Rightarrow> nat \<Rightarrow> error + game" where
  "live g x y =
     bindE (neighbours g (int x) (int y)) (\<lambda>n.
       case arr_get (population g) (Some (int x)) of
         None \<Rightarrow> Inl TypeError
       | Some col \<Rightarrow>
           if truthy (arr_get col (Some (int y))) \<and> (n < 2 \<or> n > 3) then future_set g x y False
           else if n = 3 then future_set g x y True
           else Inr g)"

section \<open>Copying objects\<close>

text \<open>
  \<^verbatim>\<open>deepExtend(out, obj)\<close> on a column: \<open>out\<close> is \<^verbatim>\<open>out || {}\<close>, and every own key of
  \<open>obj\<close> holds a boolean, which is assigned.
\<close>

definition deepExtend_column :: "column option \<Rightarrow> column \<Rightarrow> column" where
  "deepExtend_column out obj =
     fold (\<lambda>(key, v) out'. arr_set out' key v) (own_entries obj)
       (case out of None \<Rightarrow> [] | Some c \<Rightarrow> c)"

text \<open>
  \<^verbatim>\<open>deepExtend(out, obj)\<close> on the array of columns: every own key holds an object, so
  \<^verbatim>\<open>out[key] = this.deepExtend(out[key], obj[key])\<close>.
\<close>

definition deepExtend :: "grid \<Rightarrow> grid \<Rightarrow> grid" where
  "deepExtend out obj =
     fold (\<lambda>(key, c) out'.
             arr_set out' key (deepExtend_column (arr_get out' (Some (int key))) c))
       (own_entries obj) out"

text \<open>
  \<^verbatim>\<open>extend(out, a, b)\<close> as \<^verbatim>\<open>killAll\<close> calls it, with a boolean for \<open>out\<close>: \<^verbatim>\<open>out || {}\<close>
  keeps \<^verbatim>\<open>true\<close>, and \<^verbatim>\<open>out[key] = ...\<close> on a primitive throws in strict mode.
\<close>

definition extend_assign :: "nat \<times> column \<Rightarrow> buffer \<Rightarrow> error + buffer" where
  "extend_assign kv out =
     (case out of
        Grid o' \<Rightarrow> Inr (Grid (arr_set o' (fst kv) (snd kv)))
      | _ \<Rightarrow> Inl TypeError)"

definition extend :: "buffer \<Rightarrow> grid list \<Rightarrow> error + buffer" where
  "extend out args =
     forM args (\<lambda>obj. forM (own_entries obj) extend_assign)
       (case out of
          Undefined \<Rightarrow> Grid []
        | Primitive b \<Rightarrow> if b then Primitive True else Grid []
        | Grid o' \<Rightarrow> Grid o')"

section \<open>The operations on the whole grid\<close>

text \<open>
  Whether one draw \<open>r\<close> of \<^verbatim>\<open>Math.random()\<close> populates a cell:
  \<^verbatim>\<open>Math.floor(Math.random() * 10 % 2)\<close> is truthy. The product is rounded, the
  remainder and the floor are exact.
\<close>

definition draw_alive :: "real \<Rightarrow> bool" where
  "draw_alive r = (\<lfloor>js_fmod (fl64 (r * 10)) 2\<rfloor> \<noteq> 0)"

text \<open>The body of the loops of \<^verbatim>\<open>randomize\<close>, for the cell \<open>(i, j)\<close>.\<close>

definition randomize_cell :: "nat \<Rightarrow> nat \<Rightarrow> game \<Rightarrow> error + game" where
  "randomize_cell i j g =
     (let r = rnd g (rnd_pos g);
          g1 = g\<lparr>rnd_pos := Suc (rnd_pos g)\<rparr>
      in if draw_alive r then population_set (populate g1 i j) i j True
         else Inr g1)"

definition randomize :: "game \<Rightarrow> error + game" where
  "randomize g =
     forM [0..<xLength g] (\<lambda>i. forM [0..<yLength g] (\<lambda>j. randomize_cell i j)) g"

text \<open>
  \<^verbatim>\<open>killAll\<close>: stop the timer if it runs, clear and erase every cell, copy the grid into
  \<open>future\<close> with \<^verbatim>\<open>this.extend(true, [], this.population)\<close>, start the timer again.
\<close>

definition killAll :: "game \<Rightarrow> error + game" where
  "killAll g =
     (let was_alive = alive g;
          g1 = (if alive g then toggle g else g)
      in bindE
           (forM [0..<xLength g1] (\<lambda>i. forM [0..<yLength g1] (\<lambda>j g'.
              bindE (population_set g' i j False) (\<lambda>g''. Inr (kill g'' i j)))) g1)
           (\<lambda>g2. bindE (extend (Primitive True) [[], population g2])
              (\<lambda>f. let g3 = g2\<lparr>future := f\<rparr>
                    in Inr (if was_alive then toggle g3 else g3))))"

text \<open>The body of the second pair of loops of \<^verbatim>\<open>advance\<close>: redraw a cell that changed.\<close>

definition update_view :: "nat \<Rightarrow> nat \<Rightarrow> game \<Rightarrow> error + game" where
  "update_view i j g =
     (case arr_get (population g) (Some (int i)) of
        None \<Rightarrow> Inl TypeError
      | Some pcol \<Rightarrow>
          (case future g of
             Grid f \<Rightarrow>
               (case arr_get f (Some (int i)) of
                  None \<Rightarrow> Inl TypeError
                | Some fcol \<Rightarrow>
                    if arr_get pcol (Some (int j)) \<noteq> arr_get fcol (Some (int j)) then
                      (if truthy (arr_get fcol (Some (int j))) then Inr (populate g i j)
                       else Inr (kill g i j))
                    else Inr g)
           | _ \<Rightarrow> Inl TypeError))"

text \<open>
  \<^verbatim>\<open>advance\<close>: copy the population into \<open>future\<close>, let every cell live, redraw what
  changed, and make \<open>future\<close> the population. \<open>future\<close> holds a grid from the first line
  on, so the last case below is never taken.
\<close>

definition advance :: "game \<Rightarrow> error + game" where
  "advance g =
     (let g1 = g\<lparr>future := Grid (deepExtend [] (population g))\<rparr>
      in bindE
           (forM [0..<xLength g1] (\<lambda>i. forM [0..<yLength g1] (\<lambda>j g'. live g' i j)) g1)
           (\<lambda>g2. bindE
              (forM [0..<xLength g2] (\<lambda>i. forM [0..<yLength g2] (\<lambda>j. update_view i j)) g2)
              (\<lambda>g3. case future g3 of
                       Grid f \<Rightarrow> Inr (g3\<lparr>population := f\<rparr>)
                     | _ \<Rightarrow> Inl TypeError)))"

section \<open>What the properties speak about\<close>

text \<open>The value of \<^verbatim>\<open>p[x][y]\<close> where column \<open>x\<close> exists, \<^verbatim>\<open>undefined\<close> elsewhere.\<close>

definition cell :: "grid \<Rightarrow> int \<Rightarrow> int \<Rightarrow> bool option" where
  "cell p x y =
     (case arr_get p (Some x) of None \<Rightarrow> None | Some col \<Rightarrow> arr_get col (Some y))"

text \<open>A cell is alive when its value is truthy; \<^verbatim>\<open>false\<close> and \<^verbatim>\<open>undefined\<close> are dead.\<close>

definition alive_at :: "game \<Rightarrow> int \<Rightarrow> int \<Rightarrow> bool" where
  "alive_at g x y = truthy (cell (population g) x y)"

text \<open>
  The grids the methods are written for: each of the \<open>xLength\<close> columns exists, as
  \<^verbatim>\<open>init\<close> leaves it and \<^verbatim>\<open>advance\<close> and \<^verbatim>\<open>randomize\<close> keep it.
\<close>

definition well_formed :: "game \<Rightarrow> bool" where
  "well_formed g = (\<forall>i<xLength g. arr_get (population g) (Some (int i)) \<noteq> None)"

text \<open>
  The specification's \<open>countLiveNeighbors\<close>, in its words: the live cells among the eight
  toroidally wrapped neighbours, all \<open>(dx, dy)\<close> in \<open>{-1, 0, 1}\<close> squared excluding
  \<open>(0, 0)\<close>. The wrap is the mathematical modulus.
\<close>

definition offsets :: "(int \<times> int) list" where
  "offsets = [(-1, -1), (-1, 0), (-1, 1), (0, -1), (0, 1), (1, -1), (1, 0), (1, 1)]"

definition countLiveNeighbors_spec :: "game \<Rightarrow> int \<Rightarrow> int \<Rightarrow> nat" where
  "countLiveNeighbors_spec g x y =
     length (filter (\<lambda>(dx, dy).
         alive_at g ((x + dx) mod int (xLength g)) ((y + dy) mod int (yLength g))) offsets)"

text \<open>What one wrapped neighbour adds to the count.\<close>

definition wrapped_alive :: "game \<Rightarrow> int \<Rightarrow> int \<Rightarrow> int \<Rightarrow> int \<Rightarrow> int" where
  "wrapped_alive g x y i j =
     of_bool (alive_at g ((x + i) mod int (xLength g)) ((y + j) mod int (yLength g)))"

text \<open>Example states: a game of the given size and population, nothing drawn yet.\<close>

definition game_of :: "nat \<Rightarrow> nat \<Rightarrow> grid \<Rightarrow> game" where
  "game_of w h p =
     \<lparr>settings = defaults, xLength = w, yLength = h, population = p, future = Undefined,
      alive = False, timer = False, rnd = (\<lambda>n. 0), rnd_pos = 0, calls = []\<rparr>"

text \<open>A one by one grid whose only cell is alive.\<close>

definition lone_cell :: game where
  "lone_cell = game_of 1 1 [Some [Some True]]"

text \<open>The same grid with its only cell dead.\<close>

definition lone_dead :: game where
  "lone_dead = game_of 1 1 [Some [Some False]]"

text \<open>A three by three grid with only \<open>(1, 1)\<close> alive.\<close>

definition centre_only :: game where
  "centre_only =
     game_of 3 3
       [Some [Some False, Some False, Some False],
        Some [Some False, Some True, Some False],
        Some [Some False, Some False, Some False]]"

text \<open>A three by three grid with no cell alive.\<close>

definition empty3 :: game where
  "empty3 =
     game_of 3 3
       [Some [Some False, Some False, Some False],
        Some [Some False, Some False, Some False],
        Some [Some False, Some False, Some False]]"

text \<open>A three by three grid with only \<open>(a, b)\<close> alive.\<close>

definition single3 :: "nat \<Rightarrow> nat \<Rightarrow> game" where
  "single3 a b =
     game_of 3 3 (map (\<lambda>i. Some (map (\<lambda>j. Some (i = a \<and> j = b)) [0..<3])) [0..<3])"

text \<open>A two by two grid with only \<open>(0, 0)\<close> alive.\<close>

definition corner_only :: game where
  "corner_only = game_of 2 2 [Some [Some True, Some False], Some [Some False, Some False]]"

text \<open>
  The value \<^verbatim>\<open>live\<close> leaves in \<open>future\<close> for a cell whose value is \<open>c\<close> and whose count is
  \<open>n\<close>, when \<open>future\<close> still holds the copy \<open>c\<close>: the two writes of \<^verbatim>\<open>live\<close>, else no change.
\<close>

definition live_value :: "bool option \<Rightarrow> int \<Rightarrow> bool option" where
  "live_value c n =
     (if truthy c \<and> (n < 2 \<or> n > 3) then Some False
      else if n = 3 then Some True
      else c)"

text \<open>
  The rule in the specification's words: a live cell stays alive with two or three live
  neighbours, a dead cell becomes alive with exactly three.
\<close>

definition rule_spec :: "bool \<Rightarrow> nat \<Rightarrow> bool" where
  "rule_spec a n = (if a then n = 2 \<or> n = 3 else n = 3)"

text \<open>Which method a call is (\<open>True\<close> for \<^verbatim>\<open>populate\<close>, \<open>False\<close> for \<^verbatim>\<open>kill\<close>) and on which cell.\<close>

definition call_target :: "call \<Rightarrow> bool \<times> nat \<times> nat" where
  "call_target c = (case c of Populate x y k \<Rightarrow> (True, x, y) | Kill x y \<Rightarrow> (False, x, y))"

text \<open>
  The calls the redraw loops make over the given cells, from the values before (\<open>p\<close>) and
  after (\<open>f\<close>): one per cell whose value differs, \<^verbatim>\<open>populate\<close> when the new value is truthy.
\<close>

definition view_calls :: "grid \<Rightarrow> grid \<Rightarrow> (nat \<times> nat) list \<Rightarrow> (bool \<times> nat \<times> nat) list" where
  "view_calls p f cells =
     map (\<lambda>(i, j). (truthy (cell f (int i) (int j)), i, j))
       (filter (\<lambda>(i, j). cell p (int i) (int j) \<noteq> cell f (int i) (int j)) cells)"

text \<open>Two games that agree on the grid and on the buffer, whatever else differs.\<close>

definition same_grid :: "game \<Rightarrow> game \<Rightarrow> bool" where
  "same_grid g h \<longleftrightarrow>
     xLength g = xLength h \<and> yLength g = yLength h \<and> population g = population h
     \<and> future g = future h"

text \<open>
  The specification's example: a five by five grid with the horizontal blinker
  \<open>(1, 2), (2, 2), (3, 2)\<close>, as \<^verbatim>\<open>init\<close> and three writes leave it.
\<close>

definition blinker :: game where
  "blinker =
     game_of 5 5
       [Some [], Some [None, None, Some True], Some [None, None, Some True],
        Some [None, None, Some True], Some []]"

text \<open>The same grid in a game that differs in everything else.\<close>

definition busy_blinker :: game where
  "busy_blinker =
     blinker\<lparr>future := Primitive True, alive := True, timer := True,
              rnd := (\<lambda>n. 1 / 2), rnd_pos := 7, calls := [Kill 0 0]\<rparr>"

text \<open>A canvas element of the given width and height in pixels.\<close>

definition canvas :: "nat \<Rightarrow> nat \<Rightarrow> element" where
  "canvas w h = \<lparr>nodeName = ''CANVAS'', width = w, height = h\<rparr>"

text \<open>The two by two example with a random source that always draws one half.\<close>

definition sparkle :: game where
  "sparkle = corner_only\<lparr>rnd := (\<lambda>n. 1 / 2)\<rparr>"

text \<open>
  The draws \<open>r\<close> in \<open>[0, 1)\<close> for which the floor of \<open>10 r\<close> modulo 2, taken in exact
  arithmetic, is not zero, as half-open intervals \<open>[a, b)\<close>, and the total length of a list
  of intervals: the measure of their union when they are disjoint.
\<close>

definition alive_intervals :: "(real \<times> real) list" where
  "alive_intervals = [(1/10, 2/10), (3/10, 4/10), (5/10, 6/10), (7/10, 8/10), (9/10, 1)]"

definition total_length :: "(real \<times> real) list \<Rightarrow> real" where
  "total_length ivs = sum_list (map (\<lambda>(a, b). b - a) ivs)"

text \<open>Each interval moved outwards by \<open>m\<close> at both ends, inwards when \<open>m\<close> is negative.\<close>

definition widen :: "real \<Rightarrow> (real \<times> real) list \<Rightarrow> (real \<times> real) list" where
  "widen m ivs = map (\<lambda>(a, b). (a - m, b + m)) ivs"

text \<open>
  Where \<^verbatim>\<open>randomize\<close> stands in the random source \<open>r\<close> when it comes to its \<open>n\<close>-th cell in
  loop order, having started at position \<open>p\<close>: each cell before took one draw for itself,
  and one more inside \<^verbatim>\<open>populate\<close>, for the colour, when it was populated.
\<close>

fun draw_pos :: "(nat \<Rightarrow> real) \<Rightarrow> nat \<Rightarrow> nat \<Rightarrow> nat" where
  "draw_pos r p 0 = p"
| "draw_pos r p (Suc n) =
     (let q = draw_pos r p n in if draw_alive (r q) then q + 2 else q + 1)"

text \<open>
  The binary64 values nearest to seven tenths and to six tenths, which the literals
  \<^verbatim>\<open>0.7\<close> and \<^verbatim>\<open>0.6\<close> denote: multiples of \<open>2\<close> to the \<open>-53\<close>, both a little below the
  fraction.
\<close>

definition near_seven_tenths :: real where
  "near_seven_tenths = 6305039478318694 / 9007199254740992"

definition near_six_tenths :: real where
  "near_six_tenths = 5404319552844595 / 9007199254740992"

text \<open>The two by two example with a random source that always draws \<^verbatim>\<open>0.7\<close>.\<close>

definition edge_draw :: game where
  "edge_draw = corner_only\<lparr>rnd := (\<lambda>n. near_seven_tenths)\<rparr>"

section \<open>Arrays, loops and wrapping\<close>

lemma arr_get_arr_set:
  "arr_get (arr_set a k v) i = (if i = Some (int k) then Some v else arr_get a i)"
  by (auto simp: arr_get_def arr_set_def nth_append nth_list_update split: option.splits)

lemma arr_get_update:
  "arr_get (a[k := e]) i = (if i = Some (int k) \<and> k < length a then e else arr_get a i)"
  by (auto simp: arr_get_def nth_list_update split: option.splits)

lemma arr_get_Nil: "arr_get [] i = None"
  by (auto simp: arr_get_def split: option.splits)

lemma length_arr_set: "length (arr_set a k v) = max (length a) (Suc k)"
  by (auto simp: arr_set_def)

lemma own_entries_snoc:
  "own_entries (a @ [e]) = own_entries a @ (case e of None \<Rightarrow> [] | Some v \<Rightarrow> [(length a, v)])"
  by (simp add: own_entries_def List.map_filter_def split: option.splits)

lemma own_entries_Nil: "own_entries [] = []"
  by (simp add: own_entries_def List.map_filter_def)

lemma bindE_Inr: "bindE (Inr v) f = f v"
  by (simp add: bindE_def)

lemma bindE_Inl: "bindE (Inl e) f = Inl e"
  by (simp add: bindE_def)

lemma forM_append: "forM (xs @ ys) body s = bindE (forM xs body s) (forM ys body)"
  by (induction xs arbitrary: s) (auto simp: bindE_def split: sum.splits)

lemma forM_map: "forM (map h xs) body s = forM xs (\<lambda>x. body (h x)) s"
  by (induction xs arbitrary: s) (auto split: sum.splits)

lemma forM_product:
  "forM xs (\<lambda>i. forM ys (body i)) s = forM (List.product xs ys) (\<lambda>(i, j). body i j) s"
proof (induction xs arbitrary: s)
  case Nil
  show ?case by simp
next
  case (Cons x xs)
  show ?case
    by (simp add: forM_append forM_map bindE_def Cons.IH split: sum.splits)
qed

lemma forM_invariant:
  assumes "Inv [] s0"
    and "\<And>pre x post s. xs = pre @ x # post \<Longrightarrow> Inv pre s \<Longrightarrow>
           \<exists>s'. body x s = Inr s' \<and> Inv (pre @ [x]) s'"
  shows "\<exists>s'. forM xs body s0 = Inr s' \<and> Inv xs s'"
proof -
  have "\<And>pre s. xs = pre @ rest \<Longrightarrow> Inv pre s \<Longrightarrow> \<exists>s'. forM rest body s = Inr s' \<and> Inv xs s'" for rest
  proof (induction rest)
    case Nil
    then show ?case by simp
  next
    case (Cons x rest)
    from assms(2)[OF Cons.prems(1) Cons.prems(2)]
    obtain s1 where s1: "body x s = Inr s1" "Inv (pre @ [x]) s1" by blast
    from Cons.IH[of "pre @ [x]" s1] Cons.prems(1) s1(2)
    obtain s' where "forM rest body s1 = Inr s'" "Inv xs s'" by auto
    with s1(1) show ?case by simp
  qed
  from this[of "[]" xs s0] assms(1) show ?thesis by simp
qed

lemma forM_rel:
  assumes "R s t"
    and "\<And>x s t. x \<in> set xs \<Longrightarrow> R s t \<Longrightarrow> rel_sum (=) R (f x s) (h x t)"
  shows "rel_sum (=) R (forM xs f s) (forM xs h t)"
  using assms
proof (induction xs arbitrary: s t)
  case Nil
  then show ?case by simp
next
  case (Cons x xs)
  have step: "rel_sum (=) R (f x s) (h x t)" using Cons.prems by simp
  show ?case
  proof (cases "f x s")
    case (Inl e)
    with step show ?thesis by (cases "h x t") simp_all
  next
    case (Inr s1)
    with step obtain t1 where t1: "h x t = Inr t1" "R s1 t1" by (cases "h x t") simp_all
    with Inr Cons.IH[of s1 t1] Cons.prems(2) show ?thesis by simp
  qed
qed

lemma js_rem_wrap:
  assumes "0 \<le> x" "x < int n" "-1 \<le> i"
  shows "js_rem (x + i + int n) (int n) = Some ((x + i) mod int n)"
proof -
  have "0 \<le> x + i + int n" using assms by linarith
  moreover have "int n \<noteq> 0" using assms by linarith
  moreover have "(x + i + int n) mod int n = (x + i) mod int n" by simp
  ultimately show ?thesis
    by (cases "x + i + int n = 0") (simp_all add: js_rem_def sgn_if)
qed

section \<open>The neighbour count\<close>

lemma length_filter_of_bool:
  "int (length (filter P xs)) = sum_list (map (\<lambda>x. of_bool (P x)) xs)"
  by (induction xs) simp_all

lemma well_formed_column:
  assumes "well_formed g" "0 \<le> t" "t < int (xLength g)"
  shows "\<exists>col. arr_get (population g) (Some t) = Some col"
proof -
  have "nat t < xLength g" using assms by linarith
  with assms(1) have "arr_get (population g) (Some (int (nat t))) \<noteq> None"
    unfolding well_formed_def by blast
  then show ?thesis using assms(2) by auto
qed

lemma forM_count:
  fixes c0 :: int
  assumes "\<And>i c. i \<in> set xs \<Longrightarrow> body i c = Inr (c + w i)"
  shows "forM xs body c0 = Inr (c0 + sum_list (map w xs))"
  using assms by (induction xs arbitrary: c0) (simp_all add: add.assoc)

lemma neighbours_step:
  fixes count :: int
  assumes wf: "well_formed g"
    and x: "0 \<le> x" "x < int (xLength g)" and y: "0 \<le> y" "y < int (yLength g)"
    and i: "-1 \<le> i" and j: "-1 \<le> j"
  shows "(let t = js_rem (x + i + int (xLength g)) (int (xLength g));
              s = js_rem (y + j + int (yLength g)) (int (yLength g))
          in case arr_get (population g) t of
               None \<Rightarrow> Inl TypeError
             | Some col \<Rightarrow> Inr (if truthy (arr_get col s) then count + 1 else count))
         = Inr (count + of_bool (alive_at g ((x + i) mod int (xLength g)) ((y + j) mod int (yLength g))))"
proof -
  let ?t = "(x + i) mod int (xLength g)"
  have n: "0 < int (xLength g)" using x by linarith
  have "0 \<le> ?t" "?t < int (xLength g)" using n by simp_all
  from well_formed_column[OF wf this]
  obtain col where col: "arr_get (population g) (Some ?t) = Some col" by blast
  show ?thesis
    by (simp add: js_rem_wrap[OF x i] js_rem_wrap[OF y j] col alive_at_def cell_def)
qed

lemma neighbours_eq:
  assumes wf: "well_formed g"
    and x: "0 \<le> x" "x < int (xLength g)" and y: "0 \<le> y" "y < int (yLength g)"
  shows "neighbours g x y = Inr (int (countLiveNeighbors_spec g x y))"
proof -
  let ?body = "\<lambda>i j (count::int).
          let t = js_rem (x + i + int (xLength g)) (int (xLength g));
              s = js_rem (y + j + int (yLength g)) (int (yLength g))
          in case arr_get (population g) t of
               None \<Rightarrow> Inl TypeError
             | Some col \<Rightarrow> Inr (if truthy (arr_get col s) then count + 1 else count)"
  have inner: "forM [-1, 0, 1] (?body i) c
      = Inr (c + sum_list (map (wrapped_alive g x y i) [-1, 0, 1]))"
    if "i \<in> set [-1, 0, 1]" for i c
  proof (rule forM_count)
    fix j :: int and c' :: int
    assume "j \<in> set [-1, 0, 1]"
    then have "-1 \<le> j" by auto
    moreover have "-1 \<le> i" using that by auto
    ultimately show "?body i j c' = Inr (c' + wrapped_alive g x y i j)"
      unfolding wrapped_alive_def by (rule neighbours_step[OF wf x y, rotated])
  qed
  have outer: "forM [-1, 0, 1] (\<lambda>i. forM [-1, 0, 1] (?body i)) 0
      = Inr (0 + sum_list (map (\<lambda>i. sum_list (map (wrapped_alive g x y i) [-1, 0, 1])) [-1, 0, 1]))"
    by (rule forM_count) (rule inner)
  from well_formed_column[OF wf x]
  obtain col where col: "arr_get (population g) (Some x) = Some col" by blast
  have xm: "x mod int (xLength g) = x" and ym: "y mod int (yLength g) = y"
    using x y by simp_all
  have centre: "truthy (arr_get col (Some y)) = alive_at g x y"
    by (simp add: alive_at_def cell_def col)
  have spec: "int (countLiveNeighbors_spec g x y)
      = sum_list (map (\<lambda>(i, j). wrapped_alive g x y i j) offsets)"
    unfolding countLiveNeighbors_spec_def length_filter_of_bool wrapped_alive_def
    by (simp add: case_prod_unfold)
  have "neighbours g x y = bindE (forM [-1, 0, 1] (\<lambda>i. forM [-1, 0, 1] (?body i)) 0)
       (\<lambda>count. Inr (if alive_at g x y then count - 1 else count))"
    unfolding neighbours_def by (simp only: col option.case centre)
  also have "\<dots> = Inr (int (countLiveNeighbors_spec g x y))"
    unfolding outer bindE_Inr spec offsets_def
    by (simp add: wrapped_alive_def xm ym)
  finally show ?thesis .
qed

lemma filter_hit: "x \<in> set xs \<Longrightarrow> P x \<Longrightarrow> 1 \<le> length (filter P xs)"
  by (induction xs) auto

lemma neighbours_returns:
  assumes wf: "well_formed g" and x: "0 \<le> x" "x < int (xLength g)"
  shows "\<exists>n. neighbours g x y = Inr n"
proof -
  let ?col = "\<lambda>i. the (arr_get (population g) (Some ((x + i) mod int (xLength g))))"
  let ?w = "\<lambda>i j. of_bool (truthy (arr_get (?col i)
              (js_rem (y + j + int (yLength g)) (int (yLength g))))) :: int"
  let ?body = "\<lambda>i j (count::int).
          let t = js_rem (x + i + int (xLength g)) (int (xLength g));
              s = js_rem (y + j + int (yLength g)) (int (yLength g))
          in case arr_get (population g) t of
               None \<Rightarrow> Inl TypeError
             | Some col \<Rightarrow> Inr (if truthy (arr_get col s) then count + 1 else count)"
  have n: "0 < int (xLength g)" using x by linarith
  have step: "?body i j c = Inr (c + ?w i j)" if "i \<in> set [-1, 0, 1]" for i j c
  proof -
    have i: "-1 \<le> i" using that by auto
    have "0 \<le> (x + i) mod int (xLength g)" "(x + i) mod int (xLength g) < int (xLength g)"
      using n by simp_all
    from well_formed_column[OF wf this]
    obtain col where "arr_get (population g) (Some ((x + i) mod int (xLength g))) = Some col"
      by blast
    then show ?thesis by (simp add: js_rem_wrap[OF x i])
  qed
  have inner: "forM [-1, 0, 1] (?body i) c = Inr (c + sum_list (map (?w i) [-1, 0, 1]))"
    if "i \<in> set [-1, 0, 1]" for i c
    by (rule forM_count) (rule step[OF that])
  have outer: "forM [-1, 0, 1] (\<lambda>i. forM [-1, 0, 1] (?body i)) 0
      = Inr (0 + sum_list (map (\<lambda>i. sum_list (map (?w i) [-1, 0, 1])) [-1, 0, 1]))"
    by (rule forM_count) (rule inner)
  from well_formed_column[OF wf x]
  obtain col where col: "arr_get (population g) (Some x) = Some col" by blast
  have "neighbours g x y = bindE (forM [-1, 0, 1] (\<lambda>i. forM [-1, 0, 1] (?body i)) 0)
       (\<lambda>count. Inr (if truthy (arr_get col (Some y)) then count - 1 else count))"
    unfolding neighbours_def by (simp only: col option.case)
  then show ?thesis unfolding outer bindE_Inr by blast
qed

lemma well_formed_centre_only: "well_formed centre_only"
  by (auto simp: well_formed_def centre_only_def game_of_def arr_get_def nth_Cons')

lemma well_formed_lone_cell: "well_formed lone_cell"
  by (auto simp: well_formed_def lone_cell_def game_of_def arr_get_def)

lemma well_formed_corner_only: "well_formed corner_only"
  by (auto simp: well_formed_def corner_only_def game_of_def arr_get_def nth_Cons')

text \<open>
  On a grid at least two cells wide and high no wrapped neighbour of a cell is the cell
  itself, so the count does not depend on the cell's own state.
\<close>

lemma step_off:
  fixes x w d :: int
  assumes "2 \<le> w" "d = 1 \<or> d = -1"
  shows "(x + d) mod w \<noteq> x mod w"
proof
  assume "(x + d) mod w = x mod w"
  then have "w dvd (x + d) - x" by (simp only: mod_eq_dvd_iff)
  then have "w dvd d" by simp
  with assms show False by (auto dest: zdvd_imp_le)
qed

lemma wrapped_off_centre:
  fixes x y :: int
  assumes "2 \<le> w" "2 \<le> h" "0 \<le> x" "x < w" "0 \<le> y" "y < h" "(dx, dy) \<in> set offsets"
  shows "((x + dx) mod w, (y + dy) mod h) \<noteq> (x, y)"
proof -
  have xm: "x mod w = x" and ym: "y mod h = y" using assms by simp_all
  from assms(7) have "dx = 1 \<or> dx = -1 \<or> dy = 1 \<or> dy = -1"
    by (auto simp: offsets_def)
  then show ?thesis
    using step_off[OF assms(1), of dx x] step_off[OF assms(2), of dy y] xm ym by auto
qed

lemma count_same_off_centre:
  assumes dims: "xLength h = xLength g" "yLength h = yLength g"
    and big: "2 \<le> xLength g" "2 \<le> yLength g"
    and x: "0 \<le> x" "x < int (xLength g)" and y: "0 \<le> y" "y < int (yLength g)"
    and same: "\<forall>a b. (a, b) \<noteq> (x, y) \<longrightarrow> cell (population h) a b = cell (population g) a b"
  shows "countLiveNeighbors_spec h x y = countLiveNeighbors_spec g x y"
proof -
  have "filter (\<lambda>(dx, dy). alive_at h ((x + dx) mod int (xLength g)) ((y + dy) mod int (yLength g)))
          offsets
      = filter (\<lambda>(dx, dy). alive_at g ((x + dx) mod int (xLength g)) ((y + dy) mod int (yLength g)))
          offsets"
  proof (rule filter_cong[OF refl])
    fix c assume c: "c \<in> set offsets"
    obtain dx dy where d: "c = (dx, dy)" by (cases c)
    have "((x + dx) mod int (xLength g), (y + dy) mod int (yLength g)) \<noteq> (x, y)"
      by (rule wrapped_off_centre) (use big x y c d in simp_all)
    with same show "(case c of (dx, dy) \<Rightarrow>
            alive_at h ((x + dx) mod int (xLength g)) ((y + dy) mod int (yLength g)))
        = (case c of (dx, dy) \<Rightarrow>
            alive_at g ((x + dx) mod int (xLength g)) ((y + dy) mod int (yLength g)))"
      by (simp add: d alive_at_def)
  qed
  then show ?thesis by (simp add: countLiveNeighbors_spec_def dims)
qed

section \<open>Properties of the neighbour count\<close>

text \<open>
  Claim C2, as the code has it. On every grid whose columns exist and for every coordinate
  \<open>(x, y)\<close> in range, \<^verbatim>\<open>neighbours(x, y)\<close> returns the number of live cells at the eight
  wrapped offsets, a count between 0 and 8. On a grid at least two cells wide and two
  cells high none of the eight wrapped positions is \<open>(x, y)\<close>, and the count is the same
  on every grid that differs from this one at most in the cell \<open>(x, y)\<close>: the state of the
  cell itself plays no part.
\<close>

theorem neighbours_excludes_centre:
  assumes "well_formed g" "0 \<le> x" "x < int (xLength g)" "0 \<le> y" "y < int (yLength g)"
  shows "neighbours g x y = Inr (int (countLiveNeighbors_spec g x y))
       \<and> countLiveNeighbors_spec g x y \<le> 8
       \<and> (2 \<le> xLength g \<and> 2 \<le> yLength g \<longrightarrow>
            (\<forall>(dx, dy) \<in> set offsets.
                ((x + dx) mod int (xLength g), (y + dy) mod int (yLength g)) \<noteq> (x, y))
          \<and> (\<forall>h. well_formed h \<and> xLength h = xLength g \<and> yLength h = yLength g
                   \<and> (\<forall>a b. (a, b) \<noteq> (x, y) \<longrightarrow>
                          cell (population h) a b = cell (population g) a b)
                 \<longrightarrow> neighbours h x y = neighbours g x y))"
proof (intro conjI impI allI)
  show eq: "neighbours g x y = Inr (int (countLiveNeighbors_spec g x y))"
    by (rule neighbours_eq[OF assms])
  have "length (filter P offsets) \<le> 8" for P
    using length_filter_le[of P offsets] by (simp add: offsets_def)
  then show "countLiveNeighbors_spec g x y \<le> 8"
    unfolding countLiveNeighbors_spec_def by blast
next
  assume big: "2 \<le> xLength g \<and> 2 \<le> yLength g"
  show "\<forall>(dx, dy) \<in> set offsets.
          ((x + dx) mod int (xLength g), (y + dy) mod int (yLength g)) \<noteq> (x, y)"
  proof (clarify)
    fix dx dy
    assume "(dx, dy) \<in> set offsets"
      and "(x + dx) mod int (xLength g) = x" "(y + dy) mod int (yLength g) = y"
    with wrapped_off_centre[of "int (xLength g)" "int (yLength g)" x y dx dy] big assms
    show False by simp
  qed
next
  fix h
  assume big: "2 \<le> xLength g \<and> 2 \<le> yLength g"
    and h: "well_formed h \<and> xLength h = xLength g \<and> yLength h = yLength g
                   \<and> (\<forall>a b. (a, b) \<noteq> (x, y) \<longrightarrow>
                          cell (population h) a b = cell (population g) a b)"
  have "neighbours h x y = Inr (int (countLiveNeighbors_spec h x y))"
    by (rule neighbours_eq) (use h assms in simp_all)
  moreover have "countLiveNeighbors_spec h x y = countLiveNeighbors_spec g x y"
    by (rule count_same_off_centre) (use h big assms in simp_all)
  ultimately show "neighbours h x y = neighbours g x y"
    using neighbours_eq[OF assms] by simp
qed

text \<open>
  The specification's example, a three by three grid with only \<open>(1, 1)\<close> alive, against
  the grid with no cell alive: the count at \<open>(1, 1)\<close> is 0 on both.
\<close>

theorem neighbours_excludes_centre_witness:
  "well_formed centre_only \<and> 2 \<le> xLength centre_only \<and> 2 \<le> yLength centre_only
   \<and> alive_at centre_only 1 1 \<and> \<not> alive_at empty3 1 1
   \<and> neighbours centre_only 1 1 = Inr 0
   \<and> neighbours empty3 1 1 = neighbours centre_only 1 1"
proof -
  have wf: "well_formed centre_only" by (rule well_formed_centre_only)
  have wfe: "well_formed empty3" by code_simp
  have d: "xLength centre_only = 3" "yLength centre_only = 3"
    "xLength empty3 = 3" "yLength empty3 = 3"
    by (simp_all add: centre_only_def empty3_def game_of_def)
  have a: "alive_at centre_only 1 1" "\<not> alive_at empty3 1 1" by code_simp+
  have n: "countLiveNeighbors_spec centre_only 1 1 = 0" by code_simp
  have same: "\<forall>a b. (a, b) \<noteq> (1, 1) \<longrightarrow>
      cell (population empty3) a b = cell (population centre_only) a b"
    by (auto simp: cell_def arr_get_def empty3_def centre_only_def game_of_def nth_Cons'
        split: option.splits)
  note inst = neighbours_excludes_centre[OF wf, of 1 1]
  from inst d n have "neighbours centre_only 1 1 = Inr 0" by simp
  moreover from inst d wfe same
  have "neighbours empty3 1 1 = neighbours centre_only 1 1" by simp
  ultimately show ?thesis using wf d a by simp
qed

text \<open>
  Claim C2 as stated, for a one by one grid as well, fails: there each of the eight
  offsets wraps onto the cell itself, the loops count it nine times and subtract it
  once, and the count follows the cell's own state: 8 when it is alive, 0 when it is dead.
\<close>

theorem neighbours_counts_wrapped_centre:
  "alive_at lone_cell 0 0 \<and> neighbours lone_cell 0 0 = Inr 8
   \<and> \<not> alive_at lone_dead 0 0 \<and> neighbours lone_dead 0 0 = Inr 0"
  by code_simp

text \<open>
  Claim C3. The count is toroidal. On a grid at least two cells wide and high,
  \<^verbatim>\<open>neighbours(x, y)\<close> is at every cell in range the number of live cells among the eight
  positions \<open>((x + dx) mod xLength, (y + dy) mod yLength)\<close>, with the mathematical modulus.
  So a live cell at \<open>(0, 0)\<close> is counted among the neighbours of
  \<open>(xLength - 1, yLength - 1)\<close>, of \<open>(xLength - 1, 0)\<close> and of \<open>(0, yLength - 1)\<close>, through
  the offset \<open>+1\<close> past the last column or row; and, through the offset \<open>-1\<close> before the
  first, a live cell at any of these three is counted among the neighbours of \<open>(0, 0)\<close>.
  The index expression of the source wraps in both directions: one step left of column 0
  is column \<open>xLength - 1\<close>, one step right of column \<open>xLength - 1\<close> is column 0, and the
  same for rows.
\<close>

theorem neighbours_toroidal:
  assumes wf: "well_formed g" and w: "2 \<le> xLength g" and h: "2 \<le> yLength g"
  shows "(\<forall>x y. 0 \<le> x \<and> x < int (xLength g) \<and> 0 \<le> y \<and> y < int (yLength g) \<longrightarrow>
            neighbours g x y
            = Inr (int (length (filter (\<lambda>(dx, dy).
                 alive_at g ((x + dx) mod int (xLength g)) ((y + dy) mod int (yLength g)))
                 offsets))))
       \<and> (alive_at g 0 0 \<longrightarrow>
            (\<exists>n1 n2 n3.
                neighbours g (int (xLength g) - 1) (int (yLength g) - 1) = Inr n1 \<and> 1 \<le> n1
              \<and> neighbours g (int (xLength g) - 1) 0 = Inr n2 \<and> 1 \<le> n2
              \<and> neighbours g 0 (int (yLength g) - 1) = Inr n3 \<and> 1 \<le> n3))
       \<and> (alive_at g (int (xLength g) - 1) (int (yLength g) - 1)
            \<or> alive_at g (int (xLength g) - 1) 0
            \<or> alive_at g 0 (int (yLength g) - 1) \<longrightarrow>
            (\<exists>n. neighbours g 0 0 = Inr n \<and> 1 \<le> n))
       \<and> js_rem (0 + (-1) + int (xLength g)) (int (xLength g)) = Some (int (xLength g) - 1)
       \<and> js_rem (int (xLength g) - 1 + 1 + int (xLength g)) (int (xLength g)) = Some 0
       \<and> js_rem (0 + (-1) + int (yLength g)) (int (yLength g)) = Some (int (yLength g) - 1)
       \<and> js_rem (int (yLength g) - 1 + 1 + int (yLength g)) (int (yLength g)) = Some 0"
proof -
  let ?w = "int (xLength g)" and ?h = "int (yLength g)"
  have w': "2 \<le> ?w" and h': "2 \<le> ?h" using w h by simp_all
  have formula: "neighbours g x y
            = Inr (int (length (filter (\<lambda>(dx, dy).
                 alive_at g ((x + dx) mod ?w) ((y + dy) mod ?h)) offsets)))"
    if "0 \<le> x \<and> x < ?w \<and> 0 \<le> y \<and> y < ?h" for x y
    using neighbours_eq[OF wf, of x y] that by (simp add: countLiveNeighbors_spec_def)
  have hit: "1 \<le> countLiveNeighbors_spec g x y"
    if "(dx, dy) \<in> set offsets" "alive_at g ((x + dx) mod ?w) ((y + dy) mod ?h)" for x y dx dy
    unfolding countLiveNeighbors_spec_def
    by (rule filter_hit[OF that(1)]) (simp add: that)
  have n1: "neighbours g (?w - 1) (?h - 1) = Inr (int (countLiveNeighbors_spec g (?w - 1) (?h - 1)))"
    by (rule neighbours_eq[OF wf]) (use w' h' in simp_all)
  have n2: "neighbours g (?w - 1) 0 = Inr (int (countLiveNeighbors_spec g (?w - 1) 0))"
    by (rule neighbours_eq[OF wf]) (use w' h' in simp_all)
  have n3: "neighbours g 0 (?h - 1) = Inr (int (countLiveNeighbors_spec g 0 (?h - 1)))"
    by (rule neighbours_eq[OF wf]) (use w' h' in simp_all)
  have n0: "neighbours g 0 0 = Inr (int (countLiveNeighbors_spec g 0 0))"
    by (rule neighbours_eq[OF wf]) (use w' h' in simp_all)
  have forward: "\<exists>n1 n2 n3.
                neighbours g (?w - 1) (?h - 1) = Inr n1 \<and> 1 \<le> n1
              \<and> neighbours g (?w - 1) 0 = Inr n2 \<and> 1 \<le> n2
              \<and> neighbours g 0 (?h - 1) = Inr n3 \<and> 1 \<le> n3"
    if a: "alive_at g 0 0"
  proof -
    have c1: "1 \<le> countLiveNeighbors_spec g (?w - 1) (?h - 1)"
      by (rule hit[of 1 1]) (simp_all add: offsets_def a)
    have c2: "1 \<le> countLiveNeighbors_spec g (?w - 1) 0"
      by (rule hit[of 1 0]) (simp_all add: offsets_def a)
    have c3: "1 \<le> countLiveNeighbors_spec g 0 (?h - 1)"
      by (rule hit[of 0 1]) (simp_all add: offsets_def a)
    show ?thesis unfolding n1 n2 n3 using c1 c2 c3 by simp
  qed
  have m1: "(-1) mod ?w = ?w - 1" "(-1) mod ?h = ?h - 1"
    using w' h' by (simp_all add: zmod_minus1)
  have backward: "\<exists>n. neighbours g 0 0 = Inr n \<and> 1 \<le> n"
    if a: "alive_at g (?w - 1) (?h - 1) \<or> alive_at g (?w - 1) 0 \<or> alive_at g 0 (?h - 1)"
  proof -
    from a have "1 \<le> countLiveNeighbors_spec g 0 0"
    proof (elim disjE)
      assume "alive_at g (?w - 1) (?h - 1)"
      then show ?thesis by (intro hit[of "-1" "-1"]) (simp_all add: offsets_def m1)
    next
      assume "alive_at g (?w - 1) 0"
      then show ?thesis by (intro hit[of "-1" 0]) (simp_all add: offsets_def m1)
    next
      assume "alive_at g 0 (?h - 1)"
      then show ?thesis by (intro hit[of 0 "-1"]) (simp_all add: offsets_def m1)
    qed
    then show ?thesis unfolding n0 by simp
  qed
  have r1: "js_rem (0 + (-1) + ?w) ?w = Some (?w - 1)"
    using js_rem_wrap[of 0 "xLength g" "-1"] w' by (simp add: zmod_minus1)
  have r2: "js_rem (?w - 1 + 1 + ?w) ?w = Some 0"
    using js_rem_wrap[of "?w - 1" "xLength g" 1] w' by simp
  have r3: "js_rem (0 + (-1) + ?h) ?h = Some (?h - 1)"
    using js_rem_wrap[of 0 "yLength g" "-1"] h' by (simp add: zmod_minus1)
  have r4: "js_rem (?h - 1 + 1 + ?h) ?h = Some 0"
    using js_rem_wrap[of "?h - 1" "yLength g" 1] h' by simp
  from formula forward backward r1 r2 r3 r4 show ?thesis by (intro conjI allI impI)
qed

text \<open>
  Three by three grids with a single live cell: the cell \<open>(0, 0)\<close> is counted once at the
  three cells across the edges and at \<open>(1, 1)\<close>, and each of \<open>(2, 2)\<close>, \<open>(0, 2)\<close> and
  \<open>(2, 0)\<close> is counted once at \<open>(0, 0)\<close>.
\<close>

theorem neighbours_toroidal_witness:
  "well_formed (single3 0 0) \<and> 2 \<le> xLength (single3 0 0) \<and> 2 \<le> yLength (single3 0 0)
   \<and> alive_at (single3 0 0) 0 0
   \<and> neighbours (single3 0 0) 2 2 = Inr 1 \<and> neighbours (single3 0 0) 2 0 = Inr 1
   \<and> neighbours (single3 0 0) 0 2 = Inr 1 \<and> neighbours (single3 0 0) 1 1 = Inr 1
   \<and> alive_at (single3 2 2) 2 2 \<and> neighbours (single3 2 2) 0 0 = Inr 1
   \<and> alive_at (single3 0 2) 0 2 \<and> neighbours (single3 0 2) 0 0 = Inr 1
   \<and> alive_at (single3 2 0) 2 0 \<and> neighbours (single3 2 0) 0 0 = Inr 1"
proof -
  have wf: "well_formed (single3 a b)" for a b
    by (auto simp: well_formed_def single3_def game_of_def arr_get_def)
  have d: "xLength (single3 a b) = 3" "yLength (single3 a b) = 3" for a b
    by (simp_all add: single3_def game_of_def)
  have big: "2 \<le> xLength (single3 a b)" "2 \<le> yLength (single3 a b)" for a b
    by (simp_all add: d)
  have formula: "neighbours (single3 a b) x y
      = Inr (int (length (filter (\<lambda>(dx, dy).
           alive_at (single3 a b) ((x + dx) mod 3) ((y + dy) mod 3)) offsets)))"
    if "0 \<le> x \<and> x < 3 \<and> 0 \<le> y \<and> y < 3" for a b x y
    using neighbours_toroidal[OF wf big, of a b] that by (simp add: d)
  have alive: "alive_at (single3 0 0) 0 0" "alive_at (single3 2 2) 2 2"
    "alive_at (single3 0 2) 0 2" "alive_at (single3 2 0) 2 0"
    by code_simp+
  have counts:
    "int (length (filter (\<lambda>(dx, dy).
           alive_at (single3 0 0) ((2 + dx) mod 3) ((2 + dy) mod 3)) offsets)) = 1"
    "int (length (filter (\<lambda>(dx, dy).
           alive_at (single3 0 0) ((2 + dx) mod 3) ((0 + dy) mod 3)) offsets)) = 1"
    "int (length (filter (\<lambda>(dx, dy).
           alive_at (single3 0 0) ((0 + dx) mod 3) ((2 + dy) mod 3)) offsets)) = 1"
    "int (length (filter (\<lambda>(dx, dy).
           alive_at (single3 0 0) ((1 + dx) mod 3) ((1 + dy) mod 3)) offsets)) = 1"
    "int (length (filter (\<lambda>(dx, dy).
           alive_at (single3 2 2) ((0 + dx) mod 3) ((0 + dy) mod 3)) offsets)) = 1"
    "int (length (filter (\<lambda>(dx, dy).
           alive_at (single3 0 2) ((0 + dx) mod 3) ((0 + dy) mod 3)) offsets)) = 1"
    "int (length (filter (\<lambda>(dx, dy).
           alive_at (single3 2 0) ((0 + dx) mod 3) ((0 + dy) mod 3)) offsets)) = 1"
    by code_simp+
  have "neighbours (single3 0 0) 2 2 = Inr 1" using formula[of 2 2 0 0] counts(1) by simp
  moreover have "neighbours (single3 0 0) 2 0 = Inr 1" using formula[of 2 0 0 0] counts(2) by simp
  moreover have "neighbours (single3 0 0) 0 2 = Inr 1" using formula[of 0 2 0 0] counts(3) by simp
  moreover have "neighbours (single3 0 0) 1 1 = Inr 1" using formula[of 1 1 0 0] counts(4) by simp
  moreover have "neighbours (single3 2 2) 0 0 = Inr 1" using formula[of 0 0 2 2] counts(5) by simp
  moreover have "neighbours (single3 0 2) 0 0 = Inr 1" using formula[of 0 0 0 2] counts(6) by simp
  moreover have "neighbours (single3 2 0) 0 0 = Inr 1" using formula[of 0 0 2 0] counts(7) by simp
  ultimately show ?thesis using wf[of 0 0] big[of 0 0] alive by (intro conjI)
qed

text \<open>
  Claim C7, as the code has it. \<^verbatim>\<open>neighbours(x, y)\<close> returns normally for every column
  \<open>x\<close> in range and every integer \<open>y\<close>; when \<open>y\<close> is in range as well, each index it
  forms by wrapping lies within the grid. Only the offsets are wrapped: the cell itself is
  read at \<open>(x, y)\<close> as given, and the wrap adds \<open>xLength\<close> once.
\<close>

theorem neighbours_total_in_range:
  assumes wf: "well_formed g" and x: "0 \<le> x" "x < int (xLength g)"
  shows "(\<exists>n. neighbours g x y = Inr n)
       \<and> (0 \<le> y \<and> y < int (yLength g) \<longrightarrow>
            (\<forall>i\<in>{-1, 0, 1}. \<forall>j\<in>{-1, 0, 1}. \<exists>t s.
               js_rem (x + i + int (xLength g)) (int (xLength g)) = Some t
             \<and> 0 \<le> t \<and> t < int (xLength g)
             \<and> js_rem (y + j + int (yLength g)) (int (yLength g)) = Some s
             \<and> 0 \<le> s \<and> s < int (yLength g)))"
proof -
  have wrap: "\<exists>t. js_rem (v + i + int n) (int n) = Some t \<and> 0 \<le> t \<and> t < int n"
    if "0 \<le> v" "v < int n" "i \<in> {-1, 0, 1}" for v n and i :: int
  proof -
    have "-1 \<le> i" using that(3) by auto
    from js_rem_wrap[OF that(1,2) this] that(1,2) show ?thesis by simp
  qed
  have "\<exists>t s.
               js_rem (x + i + int (xLength g)) (int (xLength g)) = Some t
             \<and> 0 \<le> t \<and> t < int (xLength g)
             \<and> js_rem (y + j + int (yLength g)) (int (yLength g)) = Some s
             \<and> 0 \<le> s \<and> s < int (yLength g)"
    if y: "0 \<le> y \<and> y < int (yLength g)" and i: "i \<in> {-1, 0, 1}" and j: "j \<in> {-1, 0, 1}"
    for i j :: int
  proof -
    from wrap[OF x i] obtain t where
      "js_rem (x + i + int (xLength g)) (int (xLength g)) = Some t \<and> 0 \<le> t \<and> t < int (xLength g)"
      by blast
    moreover from y have "0 \<le> y" "y < int (yLength g)" by simp_all
    from wrap[OF this j] obtain s where
      "js_rem (y + j + int (yLength g)) (int (yLength g)) = Some s \<and> 0 \<le> s \<and> s < int (yLength g)"
      by blast
    ultimately show ?thesis by blast
  qed
  then have "0 \<le> y \<and> y < int (yLength g) \<longrightarrow>
            (\<forall>i\<in>{-1, 0, 1}. \<forall>j\<in>{-1, 0, 1}. \<exists>t s.
               js_rem (x + i + int (xLength g)) (int (xLength g)) = Some t
             \<and> 0 \<le> t \<and> t < int (xLength g)
             \<and> js_rem (y + j + int (yLength g)) (int (yLength g)) = Some s
             \<and> 0 \<le> s \<and> s < int (yLength g))"
    by (intro impI ballI)
  with neighbours_returns[OF wf x, of y] show ?thesis by (intro conjI)
qed

theorem neighbours_total_in_range_witness:
  "well_formed centre_only \<and> (\<exists>n. neighbours centre_only 1 7 = Inr n)
   \<and> (\<exists>n. neighbours centre_only 2 (-5) = Inr n)
   \<and> (\<exists>t s. js_rem (0 + (-1) + 3) 3 = Some t \<and> 0 \<le> t \<and> t < 3
          \<and> js_rem (2 + 1 + 3) 3 = Some s \<and> 0 \<le> s \<and> s < 3)"
proof -
  have d: "xLength centre_only = 3" "yLength centre_only = 3"
    by (simp_all add: centre_only_def game_of_def)
  have "\<exists>n. neighbours centre_only 1 7 = Inr n"
    using neighbours_total_in_range[OF well_formed_centre_only, of 1 7] by (simp only: d)
  moreover have "\<exists>n. neighbours centre_only 2 (-5) = Inr n"
    using neighbours_total_in_range[OF well_formed_centre_only, of 2 "-5"] by (simp only: d)
  moreover have "\<exists>t s. js_rem (0 + (-1) + 3) 3 = Some t \<and> 0 \<le> t \<and> t < 3
          \<and> js_rem (2 + 1 + 3) 3 = Some s \<and> 0 \<le> s \<and> s < 3"
  proof -
    have "0 \<le> (2::int) \<and> (2::int) < int (yLength centre_only)" by (simp add: d)
    with neighbours_total_in_range[OF well_formed_centre_only, of 0 2]
    have "\<forall>i\<in>{-1, 0, 1}. \<forall>j\<in>{-1, 0, 1}. \<exists>t s.
               js_rem (0 + i + int (xLength centre_only)) (int (xLength centre_only)) = Some t
             \<and> 0 \<le> t \<and> t < int (xLength centre_only)
             \<and> js_rem (2 + j + int (yLength centre_only)) (int (yLength centre_only)) = Some s
             \<and> 0 \<le> s \<and> s < int (yLength centre_only)"
      by (simp add: d)
    then have "\<exists>t s.
               js_rem (0 + (-1) + int (xLength centre_only)) (int (xLength centre_only)) = Some t
             \<and> 0 \<le> t \<and> t < int (xLength centre_only)
             \<and> js_rem (2 + 1 + int (yLength centre_only)) (int (yLength centre_only)) = Some s
             \<and> 0 \<le> s \<and> s < int (yLength centre_only)"
      by blast
    then show ?thesis by (simp add: d)
  qed
  ultimately show ?thesis using well_formed_centre_only by (intro conjI)
qed

text \<open>
  Claim C7 as stated, for every pair of integers, fails: with \<open>x\<close> equal to the width, or
  \<open>x = -1\<close>, \<^verbatim>\<open>this.population[x]\<close> is \<^verbatim>\<open>undefined\<close> and indexing it throws.
\<close>

theorem neighbours_out_of_range_throws:
  "neighbours centre_only 3 1 = Inl TypeError \<and> neighbours centre_only (-1) 1 = Inl TypeError"
  by (simp add: neighbours_def centre_only_def game_of_def js_rem_def arr_get_def truthy_def
      bindE_def)

section \<open>One step of the game\<close>

lemma arr_get_snoc:
  "arr_get (a @ [e]) i = (if i = Some (int (length a)) then e else arr_get a i)"
  by (auto simp: arr_get_def nth_append split: option.splits)

lemma arr_get_beyond: "length a \<le> k \<Longrightarrow> arr_get a (Some (int k)) = None"
  by (simp add: arr_get_def)

lemma deepExtend_column_snoc:
  "deepExtend_column None (a @ [e]) =
     (case e of
        None \<Rightarrow> deepExtend_column None a
      | Some v \<Rightarrow> arr_set (deepExtend_column None a) (length a) v)"
  by (simp add: deepExtend_column_def own_entries_snoc split: option.splits)

lemma deepExtend_column_get: "arr_get (deepExtend_column None a) i = arr_get a i"
proof (induction a rule: rev_induct)
  case Nil
  show ?case by (simp add: deepExtend_column_def own_entries_Nil)
next
  case (snoc e a)
  then show ?case
    by (cases e) (simp_all add: deepExtend_column_snoc arr_get_snoc arr_get_arr_set arr_get_beyond)
qed

lemma deepExtend_snoc:
  "deepExtend [] (a @ [e]) =
     (case e of
        None \<Rightarrow> deepExtend [] a
      | Some c \<Rightarrow>
          arr_set (deepExtend [] a) (length a)
            (deepExtend_column (arr_get (deepExtend [] a) (Some (int (length a)))) c))"
  by (simp add: deepExtend_def own_entries_snoc split: option.splits)

lemma deepExtend_length: "length (deepExtend [] a) \<le> length a"
proof (induction a rule: rev_induct)
  case Nil
  show ?case by (simp add: deepExtend_def own_entries_Nil)
next
  case (snoc e a)
  then show ?case
    by (cases e) (simp_all add: deepExtend_snoc length_arr_set)
qed

lemma deepExtend_get:
  "arr_get (deepExtend [] a) i = map_option (deepExtend_column None) (arr_get a i)"
proof (induction a rule: rev_induct)
  case Nil
  show ?case by (simp add: deepExtend_def own_entries_Nil arr_get_Nil)
next
  case (snoc e a)
  have "arr_get (deepExtend [] a) (Some (int (length a))) = None"
    by (rule arr_get_beyond) (rule deepExtend_length)
  moreover have "arr_get a (Some (int (length a))) = None"
    by (rule arr_get_beyond) simp
  ultimately show ?case using snoc
    by (cases e) (simp_all add: deepExtend_snoc arr_get_snoc arr_get_arr_set)
qed

lemma cell_deepExtend: "cell (deepExtend [] p) x y = cell p x y"
  by (simp add: cell_def deepExtend_get deepExtend_column_get split: option.splits)

lemma column_deepExtend:
  "(arr_get (deepExtend [] p) i = None) = (arr_get p i = None)"
  by (simp add: deepExtend_get)

lemma arr_get_Some_length: "arr_get a (Some (int k)) = Some v \<Longrightarrow> k < length a"
  by (simp add: arr_get_def split: if_splits)

lemma cell_update:
  assumes "arr_get f (Some (int x)) = Some col"
  shows "cell (f[x := Some (arr_set col y v)]) a b =
           (if a = int x \<and> b = int y then Some v else cell f a b)"
proof -
  have "x < length f" using assms by (rule arr_get_Some_length)
  then show ?thesis using assms
    by (auto simp: cell_def arr_get_update arr_get_arr_set)
qed

lemma column_update:
  assumes "arr_get f (Some (int x)) = Some col"
  shows "(arr_get (f[x := Some c]) i = None) = (arr_get f i = None)"
  using assms by (auto simp: arr_get_update)

lemma future_set_result:
  assumes "future g = Grid f" and "arr_get f (Some (int x)) \<noteq> None"
  shows "\<exists>f'. future_set g x y v = Inr (g\<lparr>future := Grid f'\<rparr>)
           \<and> (\<forall>a b. cell f' a b = (if a = int x \<and> b = int y then Some v else cell f a b))
           \<and> (\<forall>i. (arr_get f' i = None) = (arr_get f i = None))"
proof -
  from assms(2) obtain col where col: "arr_get f (Some (int x)) = Some col" by blast
  have "future_set g x y v = Inr (g\<lparr>future := Grid (f[x := Some (arr_set col y v)])\<rparr>)"
    by (simp add: future_set_def assms(1) col)
  with cell_update[OF col] column_update[OF col] show ?thesis by blast
qed

lemma neighbours_future [simp]: "neighbours (g\<lparr>future := b\<rparr>) x y = neighbours g x y"
  by (simp add: neighbours_def)

lemma well_formed_future [simp]: "well_formed (g\<lparr>future := b\<rparr>) = well_formed g"
  by (simp add: well_formed_def)

lemma live_result:
  assumes wf: "well_formed g" and x: "x < xLength g" and y: "y < yLength g"
    and f: "future g = Grid f" and fx: "arr_get f (Some (int x)) \<noteq> None"
    and old: "cell f (int x) (int y) = cell (population g) (int x) (int y)"
  shows "\<exists>f'. live g x y = Inr (g\<lparr>future := Grid f'\<rparr>)
           \<and> (\<forall>a b. cell f' a b =
                 (if a = int x \<and> b = int y
                  then live_value (cell (population g) (int x) (int y))
                         (int (countLiveNeighbors_spec g (int x) (int y)))
                  else cell f a b))
           \<and> (\<forall>i. (arr_get f' i = None) = (arr_get f i = None))"
proof -
  let ?n = "int (countLiveNeighbors_spec g (int x) (int y))"
  let ?c = "cell (population g) (int x) (int y)"
  have nb: "neighbours g (int x) (int y) = Inr ?n"
    by (rule neighbours_eq[OF wf]) (use x y in simp_all)
  from well_formed_column[OF wf, of "int x"] x
  obtain col where col: "arr_get (population g) (Some (int x)) = Some col" by auto
  have c: "arr_get col (Some (int y)) = ?c" by (simp add: cell_def col)
  have live: "live g x y =
      (if truthy ?c \<and> (?n < 2 \<or> ?n > 3) then future_set g x y False
       else if ?n = 3 then future_set g x y True else Inr g)"
    by (simp add: live_def nb bindE_Inr col c)
  show ?thesis
  proof (cases "truthy ?c \<and> (?n < 2 \<or> ?n > 3)")
    case True
    with future_set_result[OF f fx, of y False] live show ?thesis
      by (auto simp: live_value_def)
  next
    case False
    show ?thesis
    proof (cases "?n = 3")
      case True
      with False future_set_result[OF f fx, of y True] live show ?thesis
        by (auto simp: live_value_def)
    next
      case n3: False
      have "g\<lparr>future := Grid f\<rparr> = g" using f by simp
      with False n3 live old show ?thesis
        by (intro exI[of _ f]) (auto simp: live_value_def)
    qed
  qed
qed

lemma alive_at_future [simp]: "alive_at (g\<lparr>future := b\<rparr>) x y = alive_at g x y"
  by (simp add: alive_at_def)

lemma countLiveNeighbors_spec_future [simp]:
  "countLiveNeighbors_spec (g\<lparr>future := b\<rparr>) x y = countLiveNeighbors_spec g x y"
  by (simp add: countLiveNeighbors_spec_def)

lemma not_in_prefix:
  assumes "distinct xs" "xs = pre @ x # post"
  shows "x \<notin> set pre"
  using assms by auto

lemma live_loop:
  assumes wf: "well_formed g"
    and cols0: "\<forall>i. (arr_get f0 i = None) = (arr_get (population g) i = None)"
    and cells0: "\<forall>a b. cell f0 a b = cell (population g) a b"
  shows "\<exists>f. forM (List.product [0..<xLength g] [0..<yLength g]) (\<lambda>(i, j) g'. live g' i j)
                (g\<lparr>future := Grid f0\<rparr>) = Inr (g\<lparr>future := Grid f\<rparr>)
           \<and> (\<forall>i. (arr_get f i = None) = (arr_get (population g) i = None))
           \<and> (\<forall>a b. cell f (int a) (int b) =
                 (if a < xLength g \<and> b < yLength g
                  then live_value (cell (population g) (int a) (int b))
                         (int (countLiveNeighbors_spec g (int a) (int b)))
                  else cell (population g) (int a) (int b)))"
proof -
  let ?cells = "List.product [0..<xLength g] [0..<yLength g]"
  let ?P = "population g"
  let ?lv = "\<lambda>a b. live_value (cell ?P (int a) (int b))
                         (int (countLiveNeighbors_spec g (int a) (int b)))"
  define Inv where "Inv pre s \<longleftrightarrow>
      (\<exists>f. s = g\<lparr>future := Grid f\<rparr>
          \<and> (\<forall>i. (arr_get f i = None) = (arr_get ?P i = None))
          \<and> (\<forall>a b. cell f (int a) (int b) =
                (if (a, b) \<in> set pre then ?lv a b else cell ?P (int a) (int b))))"
    for pre :: "(nat \<times> nat) list" and s
  have dist: "distinct ?cells" by (simp add: distinct_product)
  have init: "Inv [] (g\<lparr>future := Grid f0\<rparr>)"
    unfolding Inv_def using cols0 cells0 by auto
  have step: "\<exists>s'. (\<lambda>(i, j) g'. live g' i j) c s = Inr s' \<and> Inv (pre @ [c]) s'"
    if split: "?cells = pre @ c # post" and inv: "Inv pre s" for pre c post s
  proof -
    obtain x y where c: "c = (x, y)" by (cases c)
    have "c \<in> set ?cells" using split by simp
    then have x: "x < xLength g" and y: "y < yLength g" using c by auto
    have fresh: "(x, y) \<notin> set pre" using not_in_prefix[OF dist split] c by simp
    from inv obtain f where s: "s = g\<lparr>future := Grid f\<rparr>"
      and cols: "\<forall>i. (arr_get f i = None) = (arr_get ?P i = None)"
      and cells: "\<forall>a b. cell f (int a) (int b) =
                (if (a, b) \<in> set pre then ?lv a b else cell ?P (int a) (int b))"
      unfolding Inv_def by blast
    from well_formed_column[OF wf, of "int x"] x
    have "arr_get ?P (Some (int x)) \<noteq> None" by auto
    with cols have fx: "arr_get f (Some (int x)) \<noteq> None" by simp
    have old: "cell f (int x) (int y) = cell (population s) (int x) (int y)"
      using cells fresh by (simp add: s)
    have "well_formed s" "x < xLength s" "y < yLength s" "future s = Grid f"
      using wf x y by (simp_all add: s)
    from live_result[OF this fx old]
    obtain f' where live: "live s x y = Inr (s\<lparr>future := Grid f'\<rparr>)"
      and cells': "\<forall>a b. cell f' a b =
                 (if a = int x \<and> b = int y
                  then live_value (cell (population s) (int x) (int y))
                         (int (countLiveNeighbors_spec s (int x) (int y)))
                  else cell f a b)"
      and cols': "\<forall>i. (arr_get f' i = None) = (arr_get f i = None)"
      by blast
    have "Inv (pre @ [c]) (s\<lparr>future := Grid f'\<rparr>)"
      unfolding Inv_def
    proof (intro exI[of _ f'] conjI allI)
      show "s\<lparr>future := Grid f'\<rparr> = g\<lparr>future := Grid f'\<rparr>" by (simp add: s)
      show "(arr_get f' i = None) = (arr_get ?P i = None)" for i
        using cols cols' by simp
      show "cell f' (int a) (int b) =
              (if (a, b) \<in> set (pre @ [c]) then ?lv a b else cell ?P (int a) (int b))" for a b
        using cells' cells by (auto simp: c s)
    qed
    with live show ?thesis by (simp add: c)
  qed
  have "\<exists>s'. forM ?cells (\<lambda>(i, j) g'. live g' i j) (g\<lparr>future := Grid f0\<rparr>) = Inr s'
           \<and> Inv ?cells s'"
  proof (rule forM_invariant[where Inv = Inv])
    show "Inv [] (g\<lparr>future := Grid f0\<rparr>)" by (rule init)
  next
    fix pre c post s
    assume "?cells = pre @ c # post" "Inv pre s"
    then show "\<exists>s'. (\<lambda>(i, j) g'. live g' i j) c s = Inr s' \<and> Inv (pre @ [c]) s'"
      by (rule step)
  qed
  then obtain s' where run: "forM ?cells (\<lambda>(i, j) g'. live g' i j) (g\<lparr>future := Grid f0\<rparr>) = Inr s'"
    and inv: "Inv ?cells s'" by blast
  from inv obtain f where s': "s' = g\<lparr>future := Grid f\<rparr>"
    and cols: "\<forall>i. (arr_get f i = None) = (arr_get ?P i = None)"
    and cells: "\<forall>a b. cell f (int a) (int b) =
                (if (a, b) \<in> set ?cells then ?lv a b else cell ?P (int a) (int b))"
    unfolding Inv_def by blast
  show ?thesis
    by (intro exI[of _ f] conjI) (use run s' cols cells in simp_all)
qed

lemma update_view_result:
  assumes p: "arr_get (population s) (Some (int i)) \<noteq> None"
    and f: "future s = Grid f" and fi: "arr_get f (Some (int i)) \<noteq> None"
  shows "update_view i j s =
           Inr (if cell (population s) (int i) (int j) \<noteq> cell f (int i) (int j)
                then (if truthy (cell f (int i) (int j)) then populate s i j else kill s i j)
                else s)"
proof -
  from p obtain pcol where pcol: "arr_get (population s) (Some (int i)) = Some pcol" by blast
  from fi obtain fcol where fcol: "arr_get f (Some (int i)) = Some fcol" by blast
  show ?thesis
    by (simp add: update_view_def pcol fcol f cell_def)
qed

lemma view_loop:
  assumes cells: "\<forall>(i, j) \<in> set cells.
        arr_get (population s0) (Some (int i)) \<noteq> None \<and> arr_get f (Some (int i)) \<noteq> None"
    and f: "future s0 = Grid f"
  shows "\<exists>k new. forM cells (\<lambda>(i, j). update_view i j) s0
                   = Inr (s0\<lparr>rnd_pos := k, calls := calls s0 @ new\<rparr>)
           \<and> map call_target new = view_calls (population s0) f cells"
proof -
  define Inv where "Inv pre s \<longleftrightarrow>
      (\<exists>k new. s = s0\<lparr>rnd_pos := k, calls := calls s0 @ new\<rparr>
          \<and> map call_target new = view_calls (population s0) f pre)"
    for pre :: "(nat \<times> nat) list" and s
  have init: "Inv [] s0"
    unfolding Inv_def
    by (intro exI[of _ "rnd_pos s0"] exI[of _ "[]"]) (simp add: view_calls_def)
  have step: "\<exists>s'. (\<lambda>(i, j). update_view i j) c s = Inr s' \<and> Inv (pre @ [c]) s'"
    if split: "cells = pre @ c # post" and inv: "Inv pre s" for pre c post s
  proof -
    obtain i j where c: "c = (i, j)" by (cases c)
    have "(i, j) \<in> set cells" using split c by simp
    with cells have pi: "arr_get (population s0) (Some (int i)) \<noteq> None"
      and fi: "arr_get f (Some (int i)) \<noteq> None" by auto
    from inv obtain k new where s: "s = s0\<lparr>rnd_pos := k, calls := calls s0 @ new\<rparr>"
      and new: "map call_target new = view_calls (population s0) f pre"
      unfolding Inv_def by blast
    have ps: "population s = population s0" and fs: "future s = Grid f"
      using f by (simp_all add: s)
    have uv: "update_view i j s =
           Inr (if cell (population s0) (int i) (int j) \<noteq> cell f (int i) (int j)
                then (if truthy (cell f (int i) (int j)) then populate s i j else kill s i j)
                else s)"
      using update_view_result[of s i f j] pi fi fs by (simp add: ps)
    show ?thesis
    proof (cases "cell (population s0) (int i) (int j) \<noteq> cell f (int i) (int j)")
      case False
      then have "Inv (pre @ [c]) s"
        unfolding Inv_def using s new by (auto simp: view_calls_def c)
      with uv False show ?thesis by (simp add: c)
    next
      case changed: True
      show ?thesis
      proof (cases "truthy (cell f (int i) (int j))")
        case True
        let ?k = "\<lfloor>fl64 (rnd s (rnd_pos s) * real (length (colors (settings s))))\<rfloor>"
        have "populate s i j = s0\<lparr>rnd_pos := Suc k, calls := calls s0 @ (new @ [Populate i j ?k])\<rparr>"
          by (simp add: populate_def s)
        then have "Inv (pre @ [c]) (populate s i j)"
          unfolding Inv_def using new changed True
          by (intro exI[of _ "Suc k"] exI[of _ "new @ [Populate i j ?k]"])
            (simp add: view_calls_def c call_target_def)
        with uv changed True show ?thesis by (simp add: c)
      next
        case False
        have "kill s i j = s0\<lparr>rnd_pos := k, calls := calls s0 @ (new @ [Kill i j])\<rparr>"
          by (simp add: kill_def s)
        then have "Inv (pre @ [c]) (kill s i j)"
          unfolding Inv_def using new changed False
          by (intro exI[of _ k] exI[of _ "new @ [Kill i j]"])
            (simp add: view_calls_def c call_target_def)
        with uv changed False show ?thesis by (simp add: c)
      qed
    qed
  qed
  have "\<exists>s'. forM cells (\<lambda>(i, j). update_view i j) s0 = Inr s' \<and> Inv cells s'"
  proof (rule forM_invariant[where Inv = Inv])
    show "Inv [] s0" by (rule init)
  next
    fix pre c post s
    assume "cells = pre @ c # post" "Inv pre s"
    then show "\<exists>s'. (\<lambda>(i, j). update_view i j) c s = Inr s' \<and> Inv (pre @ [c]) s'"
      by (rule step)
  qed
  then show ?thesis unfolding Inv_def by blast
qed

lemma live_value_changed: "(live_value c n \<noteq> c) = (truthy (live_value c n) \<noteq> truthy c)"
  by (auto simp: live_value_def truthy_def)

lemma advance_result:
  assumes wf: "well_formed g"
  shows "\<exists>f k new.
           advance g = Inr (g\<lparr>future := Grid f, rnd_pos := k, calls := calls g @ new,
                               population := f\<rparr>)
         \<and> (\<forall>i. (arr_get f i = None) = (arr_get (population g) i = None))
         \<and> (\<forall>a b. cell f (int a) (int b) =
                 (if a < xLength g \<and> b < yLength g
                  then live_value (cell (population g) (int a) (int b))
                         (int (countLiveNeighbors_spec g (int a) (int b)))
                  else cell (population g) (int a) (int b)))
         \<and> map call_target new =
             view_calls (population g) f (List.product [0..<xLength g] [0..<yLength g])"
proof -
  let ?cells = "List.product [0..<xLength g] [0..<yLength g]"
  let ?g1 = "g\<lparr>future := Grid (deepExtend [] (population g))\<rparr>"
  from live_loop[OF wf, of "deepExtend [] (population g)"]
  obtain f where run1: "forM ?cells (\<lambda>(i, j) g'. live g' i j) ?g1 = Inr (g\<lparr>future := Grid f\<rparr>)"
    and cols: "\<forall>i. (arr_get f i = None) = (arr_get (population g) i = None)"
    and cells: "\<forall>a b. cell f (int a) (int b) =
                 (if a < xLength g \<and> b < yLength g
                  then live_value (cell (population g) (int a) (int b))
                         (int (countLiveNeighbors_spec g (int a) (int b)))
                  else cell (population g) (int a) (int b))"
    by (auto simp: column_deepExtend cell_deepExtend)
  let ?g2 = "g\<lparr>future := Grid f\<rparr>"
  have loop1: "forM [0..<xLength g] (\<lambda>i. forM [0..<yLength g] (\<lambda>j g'. live g' i j)) ?g1
        = Inr ?g2"
    unfolding forM_product by (rule run1)
  have "\<forall>(i, j) \<in> set ?cells.
        arr_get (population ?g2) (Some (int i)) \<noteq> None \<and> arr_get f (Some (int i)) \<noteq> None"
  proof (clarify, intro conjI)
    fix i j assume "(i, j) \<in> set ?cells"
    then have "i < xLength g" by simp
    with wf show "arr_get (population ?g2) (Some (int i)) \<noteq> None"
      by (simp add: well_formed_def)
    with cols show "arr_get f (Some (int i)) \<noteq> None" by simp
  qed
  from view_loop[OF this, of ] obtain k new
    where run2: "forM ?cells (\<lambda>(i, j). update_view i j) ?g2
                   = Inr (?g2\<lparr>rnd_pos := k, calls := calls ?g2 @ new\<rparr>)"
      and new: "map call_target new = view_calls (population ?g2) f ?cells"
    by auto
  have loop2: "forM [0..<xLength g] (\<lambda>i. forM [0..<yLength g] (\<lambda>j. update_view i j)) ?g2
        = Inr (?g2\<lparr>rnd_pos := k, calls := calls ?g2 @ new\<rparr>)"
    unfolding forM_product by (rule run2)
  have "advance g = Inr (g\<lparr>future := Grid f, rnd_pos := k, calls := calls g @ new,
                               population := f\<rparr>)"
    by (simp add: advance_def Let_def loop1 loop2 bindE_Inr)
  with cols cells new show ?thesis
    by (intro exI[of _ f] exI[of _ k] exI[of _ new] conjI) simp_all
qed

lemma advance_alive_at:
  assumes wf: "well_formed g" and adv: "advance g = Inr g'"
    and i: "i < xLength g" and j: "j < yLength g"
  shows "alive_at g' (int i) (int j)
         = rule_spec (alive_at g (int i) (int j)) (countLiveNeighbors_spec g (int i) (int j))"
proof -
  from advance_result[OF wf] adv obtain f k new
    where g': "g' = g\<lparr>future := Grid f, rnd_pos := k, calls := calls g @ new, population := f\<rparr>"
      and cells: "\<forall>a b. cell f (int a) (int b) =
                 (if a < xLength g \<and> b < yLength g
                  then live_value (cell (population g) (int a) (int b))
                         (int (countLiveNeighbors_spec g (int a) (int b)))
                  else cell (population g) (int a) (int b))"
    by auto
  have "alive_at g' (int i) (int j)
      = truthy (live_value (cell (population g) (int i) (int j))
                  (int (countLiveNeighbors_spec g (int i) (int j))))"
    using cells i j by (simp add: alive_at_def g')
  then show ?thesis
    by (auto simp: live_value_def alive_at_def truthy_def rule_spec_def)
qed

lemma advance_well_formed:
  assumes "well_formed g" and "advance g = Inr g'"
  shows "well_formed g' \<and> xLength g' = xLength g \<and> yLength g' = yLength g"
proof -
  from advance_result[OF assms(1)] assms(2) obtain f k new
    where g': "g' = g\<lparr>future := Grid f, rnd_pos := k, calls := calls g @ new, population := f\<rparr>"
      and cols: "\<forall>i. (arr_get f i = None) = (arr_get (population g) i = None)"
    by auto
  with assms(1) show ?thesis by (simp add: well_formed_def)
qed

lemma bindE_rel:
  assumes "rel_sum (=) R m m'"
    and "\<And>a b. R a b \<Longrightarrow> rel_sum (=) Q (f a) (f' b)"
  shows "rel_sum (=) Q (bindE m f) (bindE m' f')"
  using assms by (cases m; cases m') (simp_all add: bindE_def)

lemma neighbours_same_grid: "same_grid g h \<Longrightarrow> neighbours g x y = neighbours h x y"
  by (simp add: neighbours_def same_grid_def)

lemma future_set_rel:
  assumes "same_grid g h"
  shows "rel_sum (=) same_grid (future_set g x y v) (future_set h x y v)"
  using assms
  by (auto simp: future_set_def same_grid_def split: buffer.splits option.splits)

lemma live_rel:
  assumes R: "same_grid g h"
  shows "rel_sum (=) same_grid (live g x y) (live h x y)"
proof (cases "neighbours h (int x) (int y)")
  case (Inl e)
  then show ?thesis
    by (simp add: live_def neighbours_same_grid[OF R] bindE_def)
next
  case (Inr n)
  have p: "population g = population h" using R by (simp add: same_grid_def)
  show ?thesis
  proof (cases "arr_get (population h) (Some (int x))")
    case None
    then show ?thesis
      by (simp add: live_def neighbours_same_grid[OF R] Inr bindE_def p)
  next
    case (Some col)
    then show ?thesis
      using future_set_rel[OF R, of x y False] future_set_rel[OF R, of x y True] R
      by (auto simp: live_def neighbours_same_grid[OF R] Inr bindE_def p)
  qed
qed

lemma populate_same_grid: "same_grid g h \<Longrightarrow> same_grid (populate g x y) (populate h x y)"
  by (simp add: same_grid_def populate_def Let_def)

lemma kill_same_grid: "same_grid g h \<Longrightarrow> same_grid (kill g x y) (kill h x y)"
  by (simp add: same_grid_def kill_def)

lemma update_view_rel:
  assumes R: "same_grid g h"
  shows "rel_sum (=) same_grid (update_view i j g) (update_view i j h)"
proof -
  have p: "population g = population h" and f: "future g = future h"
    using R by (simp_all add: same_grid_def)
  show ?thesis
    using R populate_same_grid[OF R, of i j] kill_same_grid[OF R, of i j]
    by (simp add: update_view_def p f split: option.splits buffer.splits)
qed

lemma loops_rel:
  assumes R: "same_grid g h"
    and body: "\<And>i j s t. same_grid s t \<Longrightarrow> rel_sum (=) same_grid (body i j s) (body i j t)"
  shows "rel_sum (=) same_grid
           (forM [0..<xLength g] (\<lambda>i. forM [0..<yLength g] (body i)) g)
           (forM [0..<xLength h] (\<lambda>i. forM [0..<yLength h] (body i)) h)"
proof -
  have d: "xLength g = xLength h" "yLength g = yLength h"
    using R by (simp_all add: same_grid_def)
  show ?thesis
    unfolding d
  proof (rule forM_rel[where R = same_grid])
    show "same_grid g h" by (rule R)
  next
    fix i s t
    assume "i \<in> set [0..<xLength h]" "same_grid s t"
    from this(2)
    show "rel_sum (=) same_grid (forM [0..<yLength h] (body i) s)
            (forM [0..<yLength h] (body i) t)"
    proof (rule forM_rel[where R = same_grid])
      fix j s' t'
      assume "j \<in> set [0..<yLength h]" "same_grid s' t'"
      from this(2) show "rel_sum (=) same_grid (body i j s') (body i j t')" by (rule body)
    qed
  qed
qed

lemma advance_rel:
  assumes "xLength g = xLength h" "yLength g = yLength h" "population g = population h"
  shows "rel_sum (=) (\<lambda>s t. xLength s = xLength t \<and> yLength s = yLength t
                          \<and> population s = population t)
           (advance g) (advance h)"
proof -
  let ?g1 = "g\<lparr>future := Grid (deepExtend [] (population g))\<rparr>"
  let ?h1 = "h\<lparr>future := Grid (deepExtend [] (population h))\<rparr>"
  have R1: "same_grid ?g1 ?h1" using assms by (simp add: same_grid_def)
  have L1: "rel_sum (=) same_grid
      (forM [0..<xLength ?g1] (\<lambda>i. forM [0..<yLength ?g1] (\<lambda>j g'. live g' i j)) ?g1)
      (forM [0..<xLength ?h1] (\<lambda>i. forM [0..<yLength ?h1] (\<lambda>j g'. live g' i j)) ?h1)"
    by (rule loops_rel[OF R1]) (rule live_rel)
  have L2: "rel_sum (=) same_grid
      (forM [0..<xLength s] (\<lambda>i. forM [0..<yLength s] (\<lambda>j. update_view i j)) s)
      (forM [0..<xLength t] (\<lambda>i. forM [0..<yLength t] (\<lambda>j. update_view i j)) t)"
    if "same_grid s t" for s t
    by (rule loops_rel[OF that]) (rule update_view_rel)
  have L3: "rel_sum (=) (\<lambda>s t. xLength s = xLength t \<and> yLength s = yLength t
                          \<and> population s = population t)
      (case future s of Grid f \<Rightarrow> Inr (s\<lparr>population := f\<rparr>) | _ \<Rightarrow> Inl TypeError)
      (case future t of Grid f \<Rightarrow> Inr (t\<lparr>population := f\<rparr>) | _ \<Rightarrow> Inl TypeError)"
    if "same_grid s t" for s t
    using that by (simp add: same_grid_def split: buffer.splits)
  show ?thesis
    unfolding advance_def Let_def
    by (rule bindE_rel[OF L1]) (rule bindE_rel[OF L2], assumption, rule L3)
qed

lemma rel_sum_map_sum:
  assumes "rel_sum (=) (\<lambda>s t. p s = p t) x y"
  shows "map_sum id p x = map_sum id p y"
  using assms by (cases x; cases y) simp_all

text \<open>
  Claim C1. On a grid whose columns exist, one \<^verbatim>\<open>advance\<close> returns, and for every cell
  \<open>(i, j)\<close> of the grid the new state follows the rule applied to the count
  \<^verbatim>\<open>neighbours\<close> gives on the generation before the step: a live cell with 0, 1 or 4 to 8
  live neighbours is dead afterwards, a live cell with 2 or 3 is alive, a dead cell with
  exactly 3 is alive, and any other dead cell stays dead.
\<close>

theorem advance_applies_rule:
  assumes "well_formed g" "i < xLength g" "j < yLength g"
  shows "\<exists>g' n. advance g = Inr g'
           \<and> neighbours g (int i) (int j) = Inr (int n) \<and> n \<le> 8
           \<and> (alive_at g (int i) (int j) \<and> (n \<le> 1 \<or> 4 \<le> n) \<longrightarrow> \<not> alive_at g' (int i) (int j))
           \<and> (alive_at g (int i) (int j) \<and> (n = 2 \<or> n = 3) \<longrightarrow> alive_at g' (int i) (int j))
           \<and> (\<not> alive_at g (int i) (int j) \<and> n = 3 \<longrightarrow> alive_at g' (int i) (int j))
           \<and> (\<not> alive_at g (int i) (int j) \<and> n \<noteq> 3 \<longrightarrow> \<not> alive_at g' (int i) (int j))"
proof -
  let ?n = "countLiveNeighbors_spec g (int i) (int j)"
  from advance_result[OF assms(1)] obtain f k new
    where adv: "advance g = Inr (g\<lparr>future := Grid f, rnd_pos := k, calls := calls g @ new,
                               population := f\<rparr>)"
      and cells: "\<forall>a b. cell f (int a) (int b) =
                 (if a < xLength g \<and> b < yLength g
                  then live_value (cell (population g) (int a) (int b))
                         (int (countLiveNeighbors_spec g (int a) (int b)))
                  else cell (population g) (int a) (int b))"
    by blast
  let ?g' = "g\<lparr>future := Grid f, rnd_pos := k, calls := calls g @ new, population := f\<rparr>"
  have nb: "neighbours g (int i) (int j) = Inr (int ?n)"
    by (rule neighbours_eq[OF assms(1)]) (use assms in simp_all)
  have le: "?n \<le> 8"
    unfolding countLiveNeighbors_spec_def
    using length_filter_le[of _ offsets] by (simp add: offsets_def)
  have new: "alive_at ?g' (int i) (int j)
      = truthy (live_value (cell (population g) (int i) (int j)) (int ?n))"
    using cells assms by (simp add: alive_at_def)
  have rule: "alive_at ?g' (int i) (int j)
      = (if alive_at g (int i) (int j) then ?n = 2 \<or> ?n = 3 else ?n = 3)"
    unfolding new by (auto simp: live_value_def alive_at_def truthy_def)
  show ?thesis
    by (intro exI[of _ ?g'] exI[of _ ?n] conjI adv nb le) (use rule in auto)
qed

text \<open>
  The blinker: \<open>(1, 2)\<close> has one neighbour and dies, \<open>(2, 2)\<close> has two and lives on,
  \<open>(2, 1)\<close> has three and is born, \<open>(0, 0)\<close> has none and stays dead.
\<close>

theorem advance_applies_rule_witness:
  "well_formed blinker
   \<and> (\<exists>g'. advance blinker = Inr g'
         \<and> \<not> alive_at g' 1 2 \<and> alive_at g' 2 2 \<and> alive_at g' 2 1 \<and> \<not> alive_at g' 0 0)"
proof -
  have wf: "well_formed blinker" by code_simp
  have d: "xLength blinker = 5" "yLength blinker = 5"
    by (simp_all add: blinker_def game_of_def)
  have before: "alive_at blinker 1 2" "alive_at blinker 2 2"
    "\<not> alive_at blinker 2 1" "\<not> alive_at blinker 0 0"
    by code_simp+
  have counts: "neighbours blinker 1 2 = Inr 1" "neighbours blinker 2 2 = Inr 2"
    "neighbours blinker 2 1 = Inr 3" "neighbours blinker 0 0 = Inr 0"
    by code_simp+
  from advance_applies_rule[OF wf, of 1 2] d counts(1) before(1)
  obtain g' where g': "advance blinker = Inr g'" and c1: "\<not> alive_at g' 1 2" by auto
  from advance_applies_rule[OF wf, of 2 2] d counts(2) before(2) g'
  have c2: "alive_at g' 2 2" by auto
  from advance_applies_rule[OF wf, of 2 1] d counts(3) before(3) g'
  have c3: "alive_at g' 2 1" by auto
  from advance_applies_rule[OF wf, of 0 0] d counts(4) before(4) g'
  have c4: "\<not> alive_at g' 0 0" by auto
  from wf g' c1 c2 c3 c4 show ?thesis by blast
qed

text \<open>
  Claim C4. On a grid whose columns exist, the rendering calls one \<^verbatim>\<open>advance\<close> adds are,
  in the order of the loops, exactly one call for each cell of the grid whose state of
  being alive differs between the generations: \<^verbatim>\<open>populate\<close> where the cell is now alive,
  \<^verbatim>\<open>kill\<close> where it is now dead, and no call for a cell that did not change.
\<close>

theorem advance_reports_changes:
  assumes "well_formed g"
  shows "\<exists>g' new. advance g = Inr g' \<and> calls g' = calls g @ new
           \<and> map call_target new =
               map (\<lambda>(i, j). (alive_at g' (int i) (int j), i, j))
                 (filter (\<lambda>(i, j). alive_at g (int i) (int j) \<noteq> alive_at g' (int i) (int j))
                    (List.product [0..<xLength g] [0..<yLength g]))"
proof -
  let ?cells = "List.product [0..<xLength g] [0..<yLength g]"
  from advance_result[OF assms] obtain f k new
    where adv: "advance g = Inr (g\<lparr>future := Grid f, rnd_pos := k, calls := calls g @ new,
                               population := f\<rparr>)"
      and cells: "\<forall>a b. cell f (int a) (int b) =
                 (if a < xLength g \<and> b < yLength g
                  then live_value (cell (population g) (int a) (int b))
                         (int (countLiveNeighbors_spec g (int a) (int b)))
                  else cell (population g) (int a) (int b))"
      and new: "map call_target new = view_calls (population g) f ?cells"
    by blast
  let ?g' = "g\<lparr>future := Grid f, rnd_pos := k, calls := calls g @ new, population := f\<rparr>"
  have changed: "(cell (population g) (int i) (int j) \<noteq> cell f (int i) (int j))
        = (alive_at g (int i) (int j) \<noteq> alive_at ?g' (int i) (int j))"
    if "(i, j) \<in> set ?cells" for i j
  proof -
    from that have "i < xLength g" "j < yLength g" by simp_all
    with cells have "cell f (int i) (int j) = live_value (cell (population g) (int i) (int j))
                         (int (countLiveNeighbors_spec g (int i) (int j)))" by simp
    then show ?thesis
      using live_value_changed[of "cell (population g) (int i) (int j)"
          "int (countLiveNeighbors_spec g (int i) (int j))"]
      by (auto simp: alive_at_def)
  qed
  have "filter (\<lambda>(i, j). cell (population g) (int i) (int j) \<noteq> cell f (int i) (int j)) ?cells
      = filter (\<lambda>(i, j). alive_at g (int i) (int j) \<noteq> alive_at ?g' (int i) (int j)) ?cells"
  proof (rule filter_cong[OF refl])
    fix c assume c: "c \<in> set ?cells"
    obtain i j where ij: "c = (i, j)" by (cases c)
    from changed[of i j] c ij
    show "(case c of (i, j) \<Rightarrow> cell (population g) (int i) (int j) \<noteq> cell f (int i) (int j))
        = (case c of (i, j) \<Rightarrow> alive_at g (int i) (int j) \<noteq> alive_at ?g' (int i) (int j))"
      by simp
  qed
  then have "view_calls (population g) f ?cells =
      map (\<lambda>(i, j). (alive_at ?g' (int i) (int j), i, j))
        (filter (\<lambda>(i, j). alive_at g (int i) (int j) \<noteq> alive_at ?g' (int i) (int j)) ?cells)"
    by (simp add: view_calls_def alive_at_def)
  with new adv show ?thesis
    by (intro exI[of _ ?g'] exI[of _ new]) simp
qed

text \<open>
  The blinker loses its two ends and gains the cells above and below its middle.
\<close>

theorem advance_reports_changes_witness:
  "well_formed blinker
   \<and> (\<exists>g' new. advance blinker = Inr g' \<and> calls g' = calls blinker @ new
         \<and> map call_target new = [(False, 1, 2), (True, 2, 1), (True, 2, 3), (False, 3, 2)])"
proof -
  have wf: "well_formed blinker" by code_simp
  have run: "map_sum id (\<lambda>s. map call_target (calls s)) (advance blinker)
      = Inr [(False, 1, 2), (True, 2, 1), (True, 2, 3), (False, 3, 2)]"
    by code_simp
  have none: "calls blinker = []" by (simp add: blinker_def game_of_def)
  from advance_reports_changes[OF wf] obtain g' new
    where g': "advance blinker = Inr g'" and c: "calls g' = calls blinker @ new"
    by blast
  from run g' c none
  have "map call_target new = [(False, 1, 2), (True, 2, 1), (True, 2, 3), (False, 3, 2)]"
    by simp
  with wf g' c show ?thesis by (intro conjI exI[of _ g'] exI[of _ new])
qed

text \<open>
  Claim C5. The grid \<^verbatim>\<open>advance\<close> produces is a function of the grid alone: two games
  with the same dimensions and population, whatever their buffers, timers, random source
  and canvas, raise the same error or end with the same dimensions and population. Where
  the columns exist the step returns, and every cell's new state is the rule applied to
  the cell and its count in the generation before the step, although the cells before it
  in the loops have been written to \<open>future\<close> already.
\<close>

theorem advance_deterministic:
  assumes "xLength g = xLength h" "yLength g = yLength h" "population g = population h"
  shows "map_sum id (\<lambda>s. (xLength s, yLength s, population s)) (advance g)
           = map_sum id (\<lambda>s. (xLength s, yLength s, population s)) (advance h)
       \<and> (well_formed g \<longrightarrow>
            (\<exists>g'. advance g = Inr g'
               \<and> (\<forall>i<xLength g. \<forall>j<yLength g.
                     alive_at g' (int i) (int j)
                     = rule_spec (alive_at g (int i) (int j))
                         (countLiveNeighbors_spec g (int i) (int j)))))"
proof (intro conjI impI)
  from advance_rel[OF assms]
  show "map_sum id (\<lambda>s. (xLength s, yLength s, population s)) (advance g)
           = map_sum id (\<lambda>s. (xLength s, yLength s, population s)) (advance h)"
    by (intro rel_sum_map_sum) simp
next
  assume wf: "well_formed g"
  from advance_result[OF wf] obtain g' where adv: "advance g = Inr g'" by blast
  with advance_alive_at[OF wf adv]
  show "\<exists>g'. advance g = Inr g'
               \<and> (\<forall>i<xLength g. \<forall>j<yLength g.
                     alive_at g' (int i) (int j)
                     = rule_spec (alive_at g (int i) (int j))
                         (countLiveNeighbors_spec g (int i) (int j)))"
    by blast
qed

text \<open>
  The blinker, and the same grid in a game whose buffer holds \<^verbatim>\<open>true\<close>, whose timer
  runs and whose random source and canvas differ.
\<close>

theorem advance_deterministic_witness:
  "xLength blinker = xLength busy_blinker \<and> yLength blinker = yLength busy_blinker
   \<and> population blinker = population busy_blinker
   \<and> future blinker \<noteq> future busy_blinker
   \<and> map_sum id population (advance busy_blinker)
       = Inr [Some [], Some [None, None, Some False],
              Some [None, Some True, Some True, Some True],
              Some [None, None, Some False], Some []]
   \<and> map_sum id population (advance blinker) = map_sum id population (advance busy_blinker)"
proof -
  have same: "xLength blinker = xLength busy_blinker" "yLength blinker = yLength busy_blinker"
    "population blinker = population busy_blinker"
    by (simp_all add: busy_blinker_def)
  have differ: "future blinker \<noteq> future busy_blinker"
    by (simp add: busy_blinker_def blinker_def game_of_def)
  have run: "map_sum id population (advance busy_blinker)
       = Inr [Some [], Some [None, None, Some False],
              Some [None, Some True, Some True, Some True],
              Some [None, None, Some False], Some []]"
    by code_simp
  have "map_sum id population (advance blinker) = map_sum id population (advance busy_blinker)"
    using advance_deterministic[OF same]
    by (cases "advance blinker"; cases "advance busy_blinker") simp_all
  with same differ run show ?thesis by (intro conjI)
qed

section \<open>Clearing the grid\<close>

lemma own_entries_empty: "(own_entries a = []) = (\<forall>e \<in> set a. e = None)"
proof (induction a rule: rev_induct)
  case Nil
  show ?case by (simp add: own_entries_Nil)
next
  case (snoc e a)
  then show ?case by (cases e) (simp_all add: own_entries_snoc)
qed

lemma own_entries_column:
  assumes "arr_get a (Some (int k)) = Some v"
  shows "own_entries a \<noteq> []"
proof -
  have k: "k < length a" using assms by (rule arr_get_Some_length)
  with assms have "a ! k = Some v" by (simp add: arr_get_def)
  with k have "Some v \<in> set a" by (metis nth_mem)
  then show ?thesis by (auto simp: own_entries_empty)
qed

lemma extend_true_throws:
  assumes "own_entries p \<noteq> []"
  shows "extend (Primitive True) [[], p] = Inl TypeError"
proof -
  from assms obtain e es where "own_entries p = e # es" by (cases "own_entries p") auto
  then show ?thesis
    by (simp add: extend_def own_entries_Nil extend_assign_def)
qed

lemma extend_true_empty: "extend (Primitive True) [[], []] = Inr (Primitive True)"
  by (simp add: extend_def own_entries_Nil)

lemma population_set_result:
  assumes "arr_get (population s) (Some (int i)) \<noteq> None"
  shows "\<exists>p. population_set s i j v = Inr (s\<lparr>population := p\<rparr>)
           \<and> (\<forall>a b. cell p a b = (if a = int i \<and> b = int j then Some v else cell (population s) a b))
           \<and> (\<forall>k. (arr_get p k = None) = (arr_get (population s) k = None))"
proof -
  from assms obtain col where col: "arr_get (population s) (Some (int i)) = Some col" by blast
  have "population_set s i j v
      = Inr (s\<lparr>population := (population s)[i := Some (arr_set col j v)]\<rparr>)"
    by (simp add: population_set_def col)
  with cell_update[OF col] column_update[OF col] show ?thesis by blast
qed

lemma killAll_loops:
  assumes wf: "well_formed s0"
  shows "\<exists>s'. forM [0..<xLength s0] (\<lambda>i. forM [0..<yLength s0] (\<lambda>j g'.
              bindE (population_set g' i j False) (\<lambda>g''. Inr (kill g'' i j)))) s0 = Inr s'
           \<and> well_formed s' \<and> xLength s' = xLength s0"
proof -
  let ?cells = "List.product [0..<xLength s0] [0..<yLength s0]"
  let ?body = "\<lambda>(i, j) g'. bindE (population_set g' i j False) (\<lambda>g''. Inr (kill g'' i j))"
  define Inv where "Inv pre s \<longleftrightarrow> well_formed s \<and> xLength s = xLength s0"
    for pre :: "(nat \<times> nat) list" and s
  have "\<exists>s'. forM ?cells ?body s0 = Inr s' \<and> Inv ?cells s'"
  proof (rule forM_invariant[where Inv = Inv])
    show "Inv [] s0" unfolding Inv_def using wf by simp
  next
    fix pre c post s
    assume split: "?cells = pre @ c # post" and inv: "Inv pre s"
    obtain i j where c: "c = (i, j)" by (cases c)
    have "c \<in> set ?cells" using split by simp
    then have i: "i < xLength s0" using c by auto
    from inv have wfs: "well_formed s" and xs: "xLength s = xLength s0"
      unfolding Inv_def by simp_all
    from wfs i xs have "arr_get (population s) (Some (int i)) \<noteq> None"
      by (simp add: well_formed_def)
    from population_set_result[OF this, of j False]
    obtain p where ps: "population_set s i j False = Inr (s\<lparr>population := p\<rparr>)"
      and cols: "\<forall>k. (arr_get p k = None) = (arr_get (population s) k = None)"
      by blast
    have "well_formed (kill (s\<lparr>population := p\<rparr>) i j)"
      using wfs cols by (simp add: well_formed_def kill_def)
    moreover have "xLength (kill (s\<lparr>population := p\<rparr>) i j) = xLength s0"
      using xs by (simp add: kill_def)
    ultimately show "\<exists>s'. ?body c s = Inr s' \<and> Inv (pre @ [c]) s'"
      unfolding Inv_def by (simp add: c ps bindE_Inr)
  qed
  then show ?thesis unfolding forM_product Inv_def by blast
qed

lemma killAll_raises:
  assumes wf: "well_formed g" and x: "0 < xLength g"
  shows "killAll g = Inl TypeError"
proof -
  let ?g1 = "if alive g then toggle g else g"
  have wf1: "well_formed ?g1" and x1: "xLength ?g1 = xLength g"
    using wf by (simp_all add: well_formed_def toggle_def)
  from killAll_loops[OF wf1] obtain s' where
    run: "forM [0..<xLength ?g1] (\<lambda>i. forM [0..<yLength ?g1] (\<lambda>j g'.
              bindE (population_set g' i j False) (\<lambda>g''. Inr (kill g'' i j)))) ?g1 = Inr s'"
    and wf': "well_formed s'" and x': "xLength s' = xLength ?g1"
    by blast
  from wf' x x' x1 have "arr_get (population s') (Some (int 0)) \<noteq> None"
    unfolding well_formed_def by (metis)
  then obtain col where "arr_get (population s') (Some (int 0)) = Some col" by blast
  from extend_true_throws[OF own_entries_column[OF this]]
  have "extend (Primitive True) [[], population s'] = Inl TypeError" .
  then show ?thesis
    unfolding killAll_def Let_def run bindE_Inr by (simp add: bindE_Inl)
qed

text \<open>
  Claim C6 says that \<^verbatim>\<open>killAll\<close> always completes normally. It does not: on every grid
  with at least one column whose columns exist, \<^verbatim>\<open>killAll\<close> raises a \<^verbatim>\<open>TypeError\<close>. The loops
  clear the cells, and then \<^verbatim>\<open>this.extend(true, [], this.population)\<close> assigns the first
  column to a property of the boolean \<^verbatim>\<open>true\<close>, which strict mode refuses. The call is
  the one the jQuery versions make to \<^verbatim>\<open>$.extend\<close>, whose first argument may be the flag
  for a deep copy; the method \<^verbatim>\<open>extend\<close> of this file has no such flag.
\<close>

theorem killAll_throws:
  assumes "well_formed g" and "0 < xLength g"
  shows "killAll g = Inl TypeError"
  using assms by (rule killAll_raises)

text \<open>
  A one by one grid with its cell alive, and the grid the constructor makes on a canvas
  of eight by eight pixels.
\<close>

theorem killAll_throws_witness:
  "well_formed lone_cell \<and> 0 < xLength lone_cell \<and> killAll lone_cell = Inl TypeError
   \<and> bindE (init (canvas 8 8) defaults (\<lambda>n. 0)) killAll = Inl TypeError"
proof -
  have wf: "well_formed lone_cell" by (rule well_formed_lone_cell)
  have x: "0 < xLength lone_cell" by (simp add: lone_cell_def game_of_def)
  have fresh: "init (canvas 8 8) defaults (\<lambda>n. 0) = Inr (game_of 1 1 [Some []])"
    by (simp add: init_def canvas_def defaults_def game_of_def arr_set_def)
  have wf2: "well_formed (game_of 1 1 [Some []])"
    by (simp add: well_formed_def game_of_def arr_get_def)
  have x2: "0 < xLength (game_of 1 1 [Some []])" by (simp add: game_of_def)
  from killAll_throws[OF wf x] killAll_throws[OF wf2 x2] wf x fresh
  show ?thesis by (simp add: bindE_Inr)
qed

text \<open>
  With no column there is nothing to assign, and \<^verbatim>\<open>killAll\<close> returns with \<^verbatim>\<open>true\<close> in
  \<open>future\<close>.
\<close>

lemma killAll_empty:
  assumes "xLength g = 0" "population g = []" "\<not> alive g"
  shows "killAll g = Inr (g\<lparr>future := Primitive True\<rparr>)"
  using assms by (simp add: killAll_def Let_def extend_true_empty bindE_Inr)

section \<open>Construction\<close>

lemma init_population: "fold (\<lambda>i p. arr_set p i []) [0..<n] [] = replicate n (Some [])"
proof (induction n)
  case 0
  show ?case by simp
next
  case (Suc n)
  then show ?case by (simp add: arr_set_def replicate_append_same)
qed

lemma cell_replicate_empty: "cell (replicate n (Some [])) x y = None"
  by (auto simp: cell_def arr_get_def)

text \<open>
  Claim C8, as the code has it. The constructor checks no dimension: for a canvas of any
  width and height, zero included, and a positive \<open>cellSize\<close>, it returns a game of
  \<open>floor(width / cellSize)\<close> by \<open>floor(height / cellSize)\<close> cells with one empty column
  per \<open>x\<close>, in which every cell is dead.
\<close>

theorem construction_all_dead:
  assumes "nodeName e = ''CANVAS''" and "cellSize (extend_settings defaults opts) \<noteq> 0"
  shows "\<exists>g. GameOfLife (Some e) opts r = Inr (Instance g)
           \<and> xLength g = width e div cellSize (extend_settings defaults opts)
           \<and> yLength g = height e div cellSize (extend_settings defaults opts)
           \<and> well_formed g
           \<and> (\<forall>x y. \<not> alive_at g x y)"
proof -
  let ?st = "extend_settings defaults opts"
  let ?g = "\<lparr>settings = ?st, xLength = width e div cellSize ?st,
             yLength = height e div cellSize ?st,
             population = replicate (width e div cellSize ?st) (Some []),
             future = Undefined, alive = False, timer = False,
             rnd = r, rnd_pos = 0, calls = []\<rparr>"
  have "GameOfLife (Some e) opts r = Inr (Instance ?g)"
    using assms by (simp add: GameOfLife_def init_def Let_def init_population bindE_Inr)
  moreover have "well_formed ?g"
    by (simp add: well_formed_def arr_get_def)
  moreover have "\<forall>x y. \<not> alive_at ?g x y"
    by (simp add: alive_at_def cell_replicate_empty truthy_def)
  ultimately show ?thesis by (intro exI[of _ ?g]) simp
qed

theorem construction_all_dead_witness:
  "nodeName (canvas 0 40) = ''CANVAS'' \<and> cellSize (extend_settings defaults None) \<noteq> 0
   \<and> (\<exists>g. GameOfLife (Some (canvas 0 40)) None (\<lambda>n. 0) = Inr (Instance g)
         \<and> xLength g = 0 \<and> yLength g = 5 \<and> (\<forall>x y. \<not> alive_at g x y))"
proof -
  have a: "nodeName (canvas 0 40) = ''CANVAS''" by (simp add: canvas_def)
  have b: "cellSize (extend_settings defaults None) \<noteq> 0"
    by (simp add: extend_settings_def defaults_def)
  have c: "cellSize (extend_settings defaults None) = 8"
    by (simp add: extend_settings_def defaults_def)
  from construction_all_dead[OF a b, of "\<lambda>n. 0"] a b
  show ?thesis by (auto simp: c canvas_def)
qed

text \<open>
  Claim C8 as stated, that construction fails with \<open>InvalidDimension\<close> when the width or
  the height is not positive, fails: on a canvas of zero by zero pixels the constructor
  returns a game with no cells.
\<close>

theorem construction_accepts_zero:
  "GameOfLife (Some (canvas 0 0)) None (\<lambda>n. 0) = Inr (Instance (game_of 0 0 []))"
  by (simp add: GameOfLife_def init_def extend_settings_def canvas_def defaults_def game_of_def
      bindE_Inr)

section \<open>Rounding of the draw\<close>

text \<open>
  The rounded product \<^verbatim>\<open>Math.random() * 10\<close> lies within \<open>2\<close> to the \<open>-50\<close> of the
  exact one, so the test of \<^verbatim>\<open>randomize\<close> and the exact threshold agree on every draw whose
  tenfold is at least that far from each integer.
\<close>

lemma binexp_bounds:
  assumes "0 < x" "- 1022 \<le> e"
  shows "- 1022 \<le> binexp x e
       \<and> x * 2 powi e < 2 powi (binexp x e + 1)
       \<and> (2 powi (binexp x e) \<le> x * 2 powi e \<or> binexp x e = - 1022)"
  using assms
proof (induction x e rule: binexp.induct)
  case (1 x e)
  show ?case
  proof (cases "2 \<le> x")
    case True
    have eq: "binexp x e = binexp (x / 2) (e + 1)"
      by (subst binexp.simps) (simp add: True)
    have v: "x / 2 * 2 powi (e + 1) = x * 2 powi e"
      by (simp add: power_int_add_1)
    from "1.IH"(1)[OF True] "1.prems" True
    show ?thesis unfolding eq v[symmetric] by simp
  next
    case False
    show ?thesis
    proof (cases "0 < x \<and> x < 1 \<and> - 1022 < e")
      case True
      have eq: "binexp x e = binexp (x * 2) (e - 1)"
        by (subst binexp.simps) (simp add: False True)
      have "2 powi (e - 1) * (2::real) = 2 powi e"
        by (rule power_int_minus_mult) simp
      then have v: "x * 2 * 2 powi (e - 1) = x * 2 powi e"
        by (simp add: mult.commute mult.left_commute)
      from "1.IH"(2)[OF False True] "1.prems" True
      show ?thesis unfolding eq v[symmetric] by simp
    next
      case stop: False
      have eq: "binexp x e = e"
        by (subst binexp.simps) (use False stop in auto)
      have p: "(0::real) < 2 powi e" by simp
      have up: "(2::real) powi (e + 1) = 2 powi e * 2" by (simp add: power_int_add_1)
      have "x * 2 powi e < 2 powi (e + 1)"
        unfolding up using False p by (simp add: mult.commute)
      moreover have "2 powi e \<le> x * 2 powi e \<or> e = - 1022"
      proof (cases "1 \<le> x")
        case True
        then have "1 * 2 powi e \<le> x * 2 powi e" using p by (intro mult_right_mono) simp_all
        then show ?thesis by simp
      next
        case False
        with stop "1.prems" show ?thesis by auto
      qed
      ultimately show ?thesis unfolding eq using "1.prems" by simp
    qed
  qed
qed

lemma round_even_near: "\<bar>real_of_int (round_even q) - q\<bar> \<le> 1 / 2"
  unfolding round_even_def Let_def by (auto simp: abs_if) linarith+

lemma fl64_error:
  assumes "0 \<le> x" "x < 16"
  shows "\<bar>fl64 x - x\<bar> \<le> 2 powi (- 50)"
proof (cases "x = 0")
  case True
  then show ?thesis by (simp add: fl64_def)
next
  case False
  with assms have pos: "0 < x" by simp
  define e where "e = binexp x 0"
  define u :: real where "u = 2 powi (e - 52)"
  from binexp_bounds[of x 0] pos
  have b: "x < 2 powi (e + 1)" "2 powi e \<le> x \<or> e = - 1022"
    unfolding e_def by simp_all
  have e3: "e \<le> 3"
  proof (rule ccontr)
    assume "\<not> e \<le> 3"
    then have e4: "4 \<le> e" by simp
    then have "(2::real) powi 4 \<le> 2 powi e" by (intro power_int_increasing) simp_all
    moreover from e4 b(2) have "2 powi e \<le> x" by auto
    ultimately show False using assms(2) by simp
  qed
  have upos: "0 < u" unfolding u_def by simp
  have "u \<le> 2 powi (- 49)"
    unfolding u_def using e3 by (intro power_int_increasing) simp_all
  also have "\<dots> = 2 * 2 powi (- 50)" by simp
  finally have ule: "u / 2 \<le> 2 powi (- 50)" by simp
  have fl: "fl64 x = real_of_int (round_even (x / u)) * u"
    using pos by (simp add: fl64_def Let_def e_def u_def)
  have "fl64 x - x = (real_of_int (round_even (x / u)) - x / u) * u"
    unfolding fl using upos by (simp add: field_simps)
  then have "\<bar>fl64 x - x\<bar> = \<bar>real_of_int (round_even (x / u)) - x / u\<bar> * u"
    using upos by (simp add: abs_mult)
  also have "\<dots> \<le> 1 / 2 * u"
    using round_even_near[of "x / u"] upos by (intro mult_right_mono) simp_all
  also have "\<dots> \<le> 2 powi (- 50)" using ule by simp
  finally show ?thesis .
qed

lemma floor_fmod_2:
  fixes y :: real and t :: int
  assumes "real_of_int t \<le> y" "y < real_of_int t + 1" "0 \<le> t"
  shows "(\<lfloor>js_fmod y 2\<rfloor> \<noteq> 0) = odd t"
proof -
  let ?k = "t div 2"
  have m: "t mod 2 = 0 \<or> t mod 2 = 1" by presburger
  have tk: "real_of_int t = 2 * real_of_int ?k + real_of_int (t mod 2)"
    by (metis mult_div_mod_eq of_int_add of_int_mult of_int_numeral)
  have fl: "\<lfloor>y / 2\<rfloor> = ?k"
  proof (rule floor_unique)
    show "real_of_int ?k \<le> y / 2" using assms(1) tk m by auto
    show "y / 2 < real_of_int ?k + 1" using assms(2) tk m by auto
  qed
  have nonneg: "0 \<le> y / 2" using assms(1,3) by simp
  have fm: "js_fmod y 2 = y - 2 * real_of_int ?k"
    unfolding js_fmod_def by (simp only: nonneg if_True fl)
  have "\<lfloor>y - 2 * real_of_int ?k\<rfloor> = t mod 2"
  proof (rule floor_unique)
    show "real_of_int (t mod 2) \<le> y - 2 * real_of_int ?k" using assms(1) tk by linarith
    show "y - 2 * real_of_int ?k < real_of_int (t mod 2) + 1" using assms(2) tk by linarith
  qed
  then have "(\<lfloor>js_fmod y 2\<rfloor> \<noteq> 0) = (t mod 2 \<noteq> 0)" by (simp add: fm)
  then show ?thesis by (simp add: odd_iff_mod_2_eq_one)
qed

lemma draw_alive_clear:
  fixes r :: real and t :: int
  assumes "0 \<le> t" "t \<le> 9"
    and "real_of_int t + 2 powi (- 50) \<le> r * 10" "r * 10 < real_of_int t + 1 - 2 powi (- 50)"
  shows "draw_alive r = odd t \<and> (\<lfloor>js_fmod (r * 10) 2\<rfloor> \<noteq> 0) = odd t"
proof -
  have d: "(0::real) < 2 powi (- 50)" by simp
  have x0: "0 \<le> r * 10" using assms(1,3) d by linarith
  have x16: "r * 10 < 16" using assms(2,4) d by linarith
  from fl64_error[OF x0 x16]
  have "real_of_int t \<le> fl64 (r * 10)" "fl64 (r * 10) < real_of_int t + 1"
    using assms(3,4) by linarith+
  from floor_fmod_2[OF this assms(1)] have "draw_alive r = odd t"
    by (simp add: draw_alive_def)
  moreover have "(\<lfloor>js_fmod (r * 10) 2\<rfloor> \<noteq> 0) = odd t"
    by (rule floor_fmod_2) (use assms d in linarith)+
  ultimately show ?thesis by simp
qed

lemma round_even_nonneg: "0 \<le> q \<Longrightarrow> 0 \<le> round_even q"
  unfolding round_even_def Let_def by auto

lemma fl64_nonneg: "0 \<le> x \<Longrightarrow> 0 \<le> fl64 x"
  by (auto simp: fl64_def Let_def sgn_if intro!: mult_nonneg_nonneg round_even_nonneg)

lemma draw_alive_low:
  fixes r :: real
  assumes "0 \<le> r * 10" "r * 10 < 1 - 2 powi (- 50)"
  shows "\<not> draw_alive r"
proof -
  have "(0::real) < 2 powi (- 50)" by simp
  with assms(2) have "r * 10 < 16" by linarith
  from fl64_error[OF assms(1) this] assms(2)
  have "fl64 (r * 10) < real_of_int 0 + 1" by linarith
  moreover have "real_of_int 0 \<le> fl64 (r * 10)" using fl64_nonneg[OF assms(1)] by simp
  ultimately have "(\<lfloor>js_fmod (fl64 (r * 10)) 2\<rfloor> \<noteq> 0) = odd (0::int)"
    by (intro floor_fmod_2) simp_all
  then show ?thesis by (simp add: draw_alive_def)
qed

lemma in_widen:
  "(\<exists>(a, b) \<in> set (widen m alive_intervals). a \<le> r \<and> r < b)
   = (\<exists>t \<in> {1, 3, 5, 7, 9 :: int}. real_of_int t / 10 - m \<le> r \<and> r < (real_of_int t + 1) / 10 + m)"
  by (simp add: widen_def alive_intervals_def)

lemma draw_alive_inside:
  fixes r :: real
  assumes "\<exists>(a, b) \<in> set (widen (- (2 powi (- 50) / 10)) alive_intervals). a \<le> r \<and> r < b"
  shows "draw_alive r"
proof -
  define d :: real where "d = 2 powi (- 50)"
  from assms obtain t :: int where t: "t \<in> {1, 3, 5, 7, 9}"
    and lo: "real_of_int t / 10 - (- (d / 10)) \<le> r"
    and hi: "r < (real_of_int t + 1) / 10 + (- (d / 10))"
    unfolding in_widen d_def by blast
  have "real_of_int t + d \<le> r * 10" using lo by linarith
  moreover have "r * 10 < real_of_int t + 1 - d" using hi by argo
  moreover have "0 \<le> t" "t \<le> 9" "odd t" using t by auto
  ultimately show ?thesis using draw_alive_clear[of t r] unfolding d_def by blast
qed

lemma draw_alive_outside:
  fixes r :: real
  assumes r: "0 \<le> r" "r < 1" and alive: "draw_alive r"
  shows "\<exists>(a, b) \<in> set (widen (2 powi (- 50) / 10) alive_intervals). a \<le> r \<and> r < b"
proof (rule ccontr)
  define d :: real where "d = 2 powi (- 50)"
  assume "\<not> (\<exists>(a, b) \<in> set (widen (2 powi (- 50) / 10) alive_intervals). a \<le> r \<and> r < b)"
  then have out: "\<not> (real_of_int t / 10 - d / 10 \<le> r \<and> r < (real_of_int t + 1) / 10 + d / 10)"
    if "t \<in> {1, 3, 5, 7, 9}" for t :: int
    unfolding in_widen d_def using that by blast
  have d: "0 < d" "d < 1 / 2" unfolding d_def by simp_all
  have out': "r * 10 < real_of_int t - d \<or> real_of_int t + 1 + d \<le> r * 10"
    if "t \<in> {1, 3, 5, 7, 9}" for t :: int
    using out[OF that] by argo
  define t where "t = \<lfloor>r * 10\<rfloor>"
  have lo: "real_of_int t \<le> r * 10" and hi: "r * 10 < real_of_int t + 1"
    unfolding t_def by linarith+
  have t0: "0 \<le> t" unfolding t_def using r(1) by simp
  have t9: "t \<le> 9" unfolding t_def using r(2) by (simp add: floor_le_iff)
  from t0 t9 have "t = 0 \<or> t = 1 \<or> t = 2 \<or> t = 3 \<or> t = 4
      \<or> t = 5 \<or> t = 6 \<or> t = 7 \<or> t = 8 \<or> t = 9" by arith
  then have cases: "t = 0 \<or> t \<in> {1, 3, 5, 7, 9} \<or> t \<in> {2, 4, 6, 8}" by auto
  have odd_out: False if "t \<in> {1, 3, 5, 7, 9}"
    using out'[OF that] lo hi d by linarith
  have even_dead: False if e: "t \<in> {2, 4, 6, 8}"
  proof -
    have "t - 1 \<in> {1, 3, 5, 7, 9}" "t + 1 \<in> {1, 3, 5, 7, 9}" using e by auto
    from out'[OF this(1)] out'[OF this(2)]
    have "r * 10 < real_of_int (t - 1) - d \<or> real_of_int (t - 1) + 1 + d \<le> r * 10"
      "r * 10 < real_of_int (t + 1) - d \<or> real_of_int (t + 1) + 1 + d \<le> r * 10" .
    with lo hi d
    have "real_of_int t + d \<le> r * 10" "r * 10 < real_of_int t + 1 - d" by auto
    with draw_alive_clear[of t r] t0 t9 have "draw_alive r = odd t" unfolding d_def by blast
    with alive e show False by auto
  qed
  have zero_dead: False if z: "t = 0"
  proof -
    from out'[of 1] lo hi d z have "r * 10 < 1 - d" by auto
    moreover have "0 \<le> r * 10" using r(1) by simp
    ultimately show False using draw_alive_low[of r] alive unfolding d_def by blast
  qed
  from cases odd_out even_dead zero_dead show False by blast
qed

section \<open>Random population\<close>

lemma forM_preserves:
  assumes "P s0"
    and "\<And>x s s'. P s \<Longrightarrow> body x s = Inr s' \<Longrightarrow> P s'"
    and "forM xs body s0 = Inr s'"
  shows "P s'"
  using assms(1,3)
proof (induction xs arbitrary: s0)
  case Nil
  then show ?case by simp
next
  case (Cons x xs)
  from Cons.prems(2) obtain s1 where s1: "body x s0 = Inr s1" "forM xs body s1 = Inr s'"
    by (cases "body x s0") simp_all
  from assms(2)[OF Cons.prems(1) s1(1)] have "P s1" .
  from Cons.IH[OF this s1(2)] show ?case .
qed

lemma randomize_cell_result:
  assumes "randomize_cell i j s = Inr s'"
  shows "xLength s' = xLength s \<and> yLength s' = yLength s
       \<and> (\<forall>x y. cell (population s') x y
             = (if draw_alive (rnd s (rnd_pos s)) \<and> x = int i \<and> y = int j then Some True
                else cell (population s) x y))"
proof (cases "draw_alive (rnd s (rnd_pos s))")
  case False
  with assms show ?thesis by (auto simp: randomize_cell_def Let_def)
next
  case True
  let ?s1 = "populate (s\<lparr>rnd_pos := Suc (rnd_pos s)\<rparr>) i j"
  have p1: "population ?s1 = population s" "xLength ?s1 = xLength s" "yLength ?s1 = yLength s"
    by (simp_all add: populate_def Let_def)
  from assms True have ps: "population_set ?s1 i j True = Inr s'"
    by (simp add: randomize_cell_def Let_def)
  then have "arr_get (population ?s1) (Some (int i)) \<noteq> None"
    by (auto simp: population_set_def split: option.splits)
  from population_set_result[OF this, of j True] ps
  obtain p where "s' = ?s1\<lparr>population := p\<rparr>"
    and "\<forall>a b. cell p a b = (if a = int i \<and> b = int j then Some True else cell (population ?s1) a b)"
    by auto
  with True p1 show ?thesis by simp
qed

lemma randomize_cell_returns:
  assumes "arr_get (population s) (Some (int i)) \<noteq> None"
  shows "\<exists>s'. randomize_cell i j s = Inr s'
           \<and> (\<forall>k. (arr_get (population s') k = None) = (arr_get (population s) k = None))"
proof (cases "draw_alive (rnd s (rnd_pos s))")
  case False
  then show ?thesis by (simp add: randomize_cell_def Let_def)
next
  case True
  let ?s1 = "populate (s\<lparr>rnd_pos := Suc (rnd_pos s)\<rparr>) i j"
  have p1: "population ?s1 = population s" by (simp add: populate_def Let_def)
  with assms have "arr_get (population ?s1) (Some (int i)) \<noteq> None" by simp
  from population_set_result[OF this, of j True] p1 True
  show ?thesis by (auto simp: randomize_cell_def Let_def)
qed

lemma randomize_returns:
  assumes wf: "well_formed g"
  shows "\<exists>g'. randomize g = Inr g'"
proof -
  let ?cells = "List.product [0..<xLength g] [0..<yLength g]"
  define Inv where "Inv pre s \<longleftrightarrow>
      (\<forall>k. (arr_get (population s) k = None) = (arr_get (population g) k = None))"
    for pre :: "(nat \<times> nat) list" and s :: game
  have "\<exists>s'. forM ?cells (\<lambda>(i, j). randomize_cell i j) g = Inr s' \<and> Inv ?cells s'"
  proof (rule forM_invariant[where Inv = Inv])
    show "Inv [] g" unfolding Inv_def by simp
  next
    fix pre c post s
    assume split: "?cells = pre @ c # post" and inv: "Inv pre s"
    obtain i j where c: "c = (i, j)" by (cases c)
    have "c \<in> set ?cells" using split by simp
    then have "i < xLength g" using c by auto
    with wf have "arr_get (population g) (Some (int i)) \<noteq> None"
      by (simp add: well_formed_def)
    with inv have "arr_get (population s) (Some (int i)) \<noteq> None"
      unfolding Inv_def by simp
    from randomize_cell_returns[OF this, of j] inv
    show "\<exists>s'. (\<lambda>(i, j). randomize_cell i j) c s = Inr s' \<and> Inv (pre @ [c]) s'"
      unfolding Inv_def by (auto simp: c)
  qed
  then show ?thesis unfolding randomize_def forM_product by blast
qed

lemma randomize_cell_columns:
  assumes "randomize_cell i j s = Inr s'"
  shows "\<forall>k. (arr_get (population s') k = None) = (arr_get (population s) k = None)"
proof (cases "draw_alive (rnd s (rnd_pos s))")
  case False
  with assms show ?thesis by (auto simp: randomize_cell_def Let_def)
next
  case True
  let ?s1 = "populate (s\<lparr>rnd_pos := Suc (rnd_pos s)\<rparr>) i j"
  have p1: "population ?s1 = population s" by (simp add: populate_def Let_def)
  from assms True have ps: "population_set ?s1 i j True = Inr s'"
    by (simp add: randomize_cell_def Let_def)
  then have "arr_get (population ?s1) (Some (int i)) \<noteq> None"
    by (auto simp: population_set_def split: option.splits)
  from population_set_result[OF this, of j True] ps p1
  show ?thesis by auto
qed

lemma randomize_well_formed:
  assumes wf: "well_formed g" and run: "randomize g = Inr g'"
  shows "well_formed g' \<and> xLength g' = xLength g \<and> yLength g' = yLength g"
proof -
  define P where "P s \<longleftrightarrow>
      xLength s = xLength g \<and> yLength s = yLength g
      \<and> (\<forall>k. (arr_get (population s) k = None) = (arr_get (population g) k = None))"
    for s :: game
  have "P g'"
  proof (rule forM_preserves[where P = P and body = "\<lambda>(i, j). randomize_cell i j"])
    show "P g" unfolding P_def by simp
  next
    fix c s s'
    assume Ps: "P s" and step: "(\<lambda>(i, j). randomize_cell i j) c s = Inr s'"
    obtain i j where c: "c = (i, j)" by (cases c)
    from step have st: "randomize_cell i j s = Inr s'" by (simp add: c)
    from randomize_cell_result[OF st] randomize_cell_columns[OF st] Ps
    show "P s'" unfolding P_def by simp
  next
    show "forM (List.product [0..<xLength g] [0..<yLength g])
            (\<lambda>(i, j). randomize_cell i j) g = Inr g'"
      using run unfolding randomize_def forM_product .
  qed
  with wf show ?thesis unfolding P_def by (simp add: well_formed_def)
qed

lemma draw_pos_step: "draw_pos r p n < draw_pos r p (Suc n)"
  by (simp add: Let_def)

lemma draw_pos_increasing: "m < n \<Longrightarrow> draw_pos r p m < draw_pos r p n"
  by (rule lift_Suc_mono_less[of "draw_pos r p"]) (rule draw_pos_step)

lemma randomize_cell_source:
  assumes "randomize_cell i j s = Inr s'"
  shows "rnd s' = rnd s
       \<and> rnd_pos s' = (if draw_alive (rnd s (rnd_pos s)) then rnd_pos s + 2 else rnd_pos s + 1)"
proof (cases "draw_alive (rnd s (rnd_pos s))")
  case False
  with assms show ?thesis by (auto simp: randomize_cell_def Let_def)
next
  case True
  let ?s1 = "populate (s\<lparr>rnd_pos := Suc (rnd_pos s)\<rparr>) i j"
  have p1: "rnd ?s1 = rnd s" "rnd_pos ?s1 = rnd_pos s + 2"
    by (simp_all add: populate_def Let_def)
  from assms True have "population_set ?s1 i j True = Inr s'"
    by (simp add: randomize_cell_def Let_def)
  then have "rnd s' = rnd ?s1 \<and> rnd_pos s' = rnd_pos ?s1"
    by (auto simp: population_set_def split: option.splits)
  with p1 True show ?thesis by simp
qed

lemma randomize_draws:
  assumes wf: "well_formed g"
  shows "\<exists>g'. randomize g = Inr g'
           \<and> rnd_pos g' = draw_pos (rnd g) (rnd_pos g) (xLength g * yLength g)
           \<and> (\<forall>i<xLength g. \<forall>j<yLength g.
                 cell (population g') (int i) (int j)
                 = (if draw_alive (rnd g (draw_pos (rnd g) (rnd_pos g) (i * yLength g + j)))
                    then Some True else cell (population g) (int i) (int j)))"
proof -
  let ?cells = "List.product [0..<xLength g] [0..<yLength g]"
  let ?at = "\<lambda>n. draw_alive (rnd g (draw_pos (rnd g) (rnd_pos g) n))"
  define Inv where "Inv pre s \<longleftrightarrow>
      rnd s = rnd g \<and> rnd_pos s = draw_pos (rnd g) (rnd_pos g) (length pre)
      \<and> (\<forall>k. (arr_get (population s) k = None) = (arr_get (population g) k = None))
      \<and> (\<forall>a b. cell (population s) (int a) (int b)
             = (if \<exists>n<length pre. ?cells ! n = (a, b) \<and> ?at n then Some True
                else cell (population g) (int a) (int b)))"
    for pre :: "(nat \<times> nat) list" and s :: game
  have len: "length ?cells = xLength g * yLength g" by simp
  have dist: "distinct ?cells" by (simp add: distinct_product)
  have "\<exists>s'. forM ?cells (\<lambda>(i, j). randomize_cell i j) g = Inr s' \<and> Inv ?cells s'"
  proof (rule forM_invariant[where Inv = Inv])
    show "Inv [] g" unfolding Inv_def by simp
  next
    fix pre c post s
    assume split: "?cells = pre @ c # post" and inv: "Inv pre s"
    obtain i j where c: "c = (i, j)" by (cases c)
    have cn: "?cells ! length pre = (i, j)" using split c by (metis nth_append_length)
    have "c \<in> set ?cells" using split by simp
    then have "i < xLength g" using c by auto
    with wf have "arr_get (population g) (Some (int i)) \<noteq> None"
      by (simp add: well_formed_def)
    with inv have "arr_get (population s) (Some (int i)) \<noteq> None"
      unfolding Inv_def by simp
    from randomize_cell_returns[OF this, of j]
    obtain s' where step: "randomize_cell i j s = Inr s'"
      and cols: "\<forall>k. (arr_get (population s') k = None) = (arr_get (population s) k = None)"
      by blast
    from inv have src: "rnd s = rnd g" "rnd_pos s = draw_pos (rnd g) (rnd_pos g) (length pre)"
      unfolding Inv_def by simp_all
    have here: "draw_alive (rnd s (rnd_pos s)) = ?at (length pre)" by (simp add: src)
    from randomize_cell_source[OF step]
    have src': "rnd s' = rnd g"
      "rnd_pos s' = draw_pos (rnd g) (rnd_pos g) (length (pre @ [c]))"
      by (simp_all add: src Let_def)
    from randomize_cell_result[OF step]
    have cells': "\<forall>x y. cell (population s') x y
             = (if ?at (length pre) \<and> x = int i \<and> y = int j then Some True
                else cell (population s) x y)"
      by (simp add: here)
    have "cell (population s') (int a) (int b)
             = (if \<exists>n<length (pre @ [c]). ?cells ! n = (a, b) \<and> ?at n then Some True
                else cell (population g) (int a) (int b))" for a b
    proof -
      have old: "cell (population s) (int a) (int b)
             = (if \<exists>n<length pre. ?cells ! n = (a, b) \<and> ?at n then Some True
                else cell (population g) (int a) (int b))"
        using inv unfolding Inv_def by blast
      have ex: "(\<exists>n<length (pre @ [c]). ?cells ! n = (a, b) \<and> ?at n)
          = ((\<exists>n<length pre. ?cells ! n = (a, b) \<and> ?at n)
             \<or> ((i, j) = (a, b) \<and> ?at (length pre)))"
        using cn by (auto simp: less_Suc_eq)
      show ?thesis unfolding ex using cells' old by auto
    qed
    with src' cols inv have "Inv (pre @ [c]) s'" unfolding Inv_def by simp
    with step show "\<exists>s'. (\<lambda>(i, j). randomize_cell i j) c s = Inr s' \<and> Inv (pre @ [c]) s'"
      by (simp add: c)
  qed
  then obtain g' where run: "randomize g = Inr g'" and inv: "Inv ?cells g'"
    unfolding randomize_def forM_product by blast
  have "cell (population g') (int i) (int j)
          = (if ?at (i * yLength g + j) then Some True else cell (population g) (int i) (int j))"
    if i: "i < xLength g" and j: "j < yLength g" for i j
  proof -
    let ?n = "i * yLength g + j"
    have "?n < (i + 1) * yLength g" using j by simp
    also have "\<dots> \<le> xLength g * yLength g" using i by (intro mult_le_mono1) simp
    finally have n: "?n < length ?cells" by simp
    have at: "?cells ! ?n = (i, j)"
      using n i j by (simp add: product_nth)
    have "(\<exists>n<length ?cells. ?cells ! n = (i, j) \<and> ?at n) = ?at ?n"
    proof
      assume "\<exists>n<length ?cells. ?cells ! n = (i, j) \<and> ?at n"
      then obtain n where "n < length ?cells" "?cells ! n = (i, j)" "?at n" by blast
      with at n dist have "n = ?n" by (metis nth_eq_iff_index_eq)
      with \<open>?at n\<close> show "?at ?n" by simp
    next
      assume "?at ?n"
      with at n show "\<exists>n<length ?cells. ?cells ! n = (i, j) \<and> ?at n" by blast
    qed
    with inv show ?thesis unfolding Inv_def by simp
  qed
  moreover from inv have "rnd_pos g' = draw_pos (rnd g) (rnd_pos g) (xLength g * yLength g)"
    unfolding Inv_def by simp
  ultimately show ?thesis using run by blast
qed

text \<open>
  Claim C9, as the code has it. On a grid whose columns exist \<^verbatim>\<open>randomize\<close> returns, and
  each cell \<open>(i, j)\<close> is decided by one draw of its own: the draw at the position the
  source has reached when the loops come to the cell, and these positions increase
  strictly from cell to cell, so no draw decides two cells. The cell is set to \<^verbatim>\<open>true\<close>
  when \<^verbatim>\<open>Math.floor(r * 10 % 2)\<close> is not zero for its draw \<open>r\<close>, with the product rounded to
  binary64, and is left as it was otherwise. That test agrees with the exact threshold,
  the floor of \<open>10 r\<close> modulo 2 being nonzero, whenever \<open>10 r\<close> is at least \<open>2\<close> to the
  \<open>-50\<close> away from every integer. Hence the draws in \<open>[0, 1)\<close> that populate a cell
  include the five intervals \<open>[0.1, 0.2)\<close>, \<open>[0.3, 0.4)\<close>, \<open>[0.5, 0.6)\<close>, \<open>[0.7, 0.8)\<close>,
  \<open>[0.9, 1)\<close> shrunk by a tenth of \<open>2\<close> to the \<open>-50\<close> at each end, of total length one
  half less \<open>2\<close> to the \<open>-50\<close>, and lie within the same intervals widened by as much,
  which stay disjoint and have total length one half plus \<open>2\<close> to the \<open>-50\<close>.
\<close>

theorem randomize_selects_by_rounded_draw:
  "(well_formed g \<longrightarrow>
      (\<exists>g'. randomize g = Inr g'
         \<and> rnd_pos g' = draw_pos (rnd g) (rnd_pos g) (xLength g * yLength g)
         \<and> (\<forall>i<xLength g. \<forall>j<yLength g.
               cell (population g') (int i) (int j)
               = (if draw_alive (rnd g (draw_pos (rnd g) (rnd_pos g) (i * yLength g + j)))
                  then Some True else cell (population g) (int i) (int j)))))
   \<and> (\<forall>m n. m < n \<longrightarrow> draw_pos (rnd g) (rnd_pos g) m < draw_pos (rnd g) (rnd_pos g) n)
   \<and> (\<forall>r t. 0 \<le> t \<and> t \<le> 9 \<and> real_of_int t + 2 powi (- 50) \<le> r * 10
            \<and> r * 10 < real_of_int t + 1 - 2 powi (- 50) \<longrightarrow>
          draw_alive r = (\<lfloor>js_fmod (r * 10) 2\<rfloor> \<noteq> 0))
   \<and> (\<forall>r. 0 \<le> r \<and> r < 1 \<longrightarrow>
          ((\<exists>(a, b) \<in> set (widen (- (2 powi (- 50) / 10)) alive_intervals). a \<le> r \<and> r < b)
             \<longrightarrow> draw_alive r)
        \<and> (draw_alive r \<longrightarrow>
             (\<exists>(a, b) \<in> set (widen (2 powi (- 50) / 10) alive_intervals). a \<le> r \<and> r < b)))
   \<and> sorted_wrt (\<lambda>(a, b) (c, d). b \<le> c) (widen (2 powi (- 50) / 10) alive_intervals)
   \<and> total_length (widen (- (2 powi (- 50) / 10)) alive_intervals) = 1 / 2 - 2 powi (- 50)
   \<and> total_length (widen (2 powi (- 50) / 10) alive_intervals) = 1 / 2 + 2 powi (- 50)"
proof (intro conjI allI impI)
  assume "well_formed g"
  then show "\<exists>g'. randomize g = Inr g'
         \<and> rnd_pos g' = draw_pos (rnd g) (rnd_pos g) (xLength g * yLength g)
         \<and> (\<forall>i<xLength g. \<forall>j<yLength g.
               cell (population g') (int i) (int j)
               = (if draw_alive (rnd g (draw_pos (rnd g) (rnd_pos g) (i * yLength g + j)))
                  then Some True else cell (population g) (int i) (int j)))"
    by (rule randomize_draws)
next
  fix m n :: nat
  assume "m < n"
  then show "draw_pos (rnd g) (rnd_pos g) m < draw_pos (rnd g) (rnd_pos g) n"
    by (rule draw_pos_increasing)
next
  fix r :: real and t :: int
  assume "0 \<le> t \<and> t \<le> 9 \<and> real_of_int t + 2 powi (- 50) \<le> r * 10
            \<and> r * 10 < real_of_int t + 1 - 2 powi (- 50)"
  then show "draw_alive r = (\<lfloor>js_fmod (r * 10) 2\<rfloor> \<noteq> 0)"
    using draw_alive_clear[of t r] by blast
next
  fix r :: real
  assume "\<exists>(a, b) \<in> set (widen (- (2 powi (- 50) / 10)) alive_intervals). a \<le> r \<and> r < b"
  then show "draw_alive r" by (rule draw_alive_inside)
next
  fix r :: real
  assume "0 \<le> r \<and> r < 1" "draw_alive r"
  then show "\<exists>(a, b) \<in> set (widen (2 powi (- 50) / 10) alive_intervals). a \<le> r \<and> r < b"
    using draw_alive_outside[of r] by blast
next
  show "sorted_wrt (\<lambda>(a, b) (c, d). b \<le> c) (widen (2 powi (- 50) / 10) alive_intervals)"
    by (simp add: widen_def alive_intervals_def)
next
  show "total_length (widen (- (2 powi (- 50) / 10)) alive_intervals) = 1 / 2 - 2 powi (- 50)"
    by (simp add: total_length_def widen_def alive_intervals_def)
next
  show "total_length (widen (2 powi (- 50) / 10) alive_intervals) = 1 / 2 + 2 powi (- 50)"
    by (simp add: total_length_def widen_def alive_intervals_def)
qed

text \<open>
  The two by two example with every draw one half: all four cells are decided, each by a
  draw of its own, eight draws are taken in all, and the draws \<open>0.5\<close> and \<open>0.55\<close>
  populate a cell where \<open>0.25\<close> does not.
\<close>

theorem randomize_selects_by_rounded_draw_witness:
  "well_formed sparkle
   \<and> (\<exists>g'. randomize sparkle = Inr g' \<and> rnd_pos g' = 8
         \<and> cell (population g') 0 1 = Some True \<and> cell (population g') 1 1 = Some True)
   \<and> draw_pos (rnd sparkle) (rnd_pos sparkle) 1 < draw_pos (rnd sparkle) (rnd_pos sparkle) 3
   \<and> draw_alive (1 / 2) \<and> draw_alive (11 / 20) \<and> \<not> draw_alive (1 / 4)"
proof -
  note inst = randomize_selects_by_rounded_draw[of sparkle]
  have wf: "well_formed sparkle"
    using well_formed_corner_only by (simp add: well_formed_def sparkle_def)
  have d: "xLength sparkle = 2" "yLength sparkle = 2" "rnd sparkle = (\<lambda>n. 1 / 2)"
    "rnd_pos sparkle = 0"
    by (simp_all add: sparkle_def corner_only_def game_of_def)
  have half: "draw_alive (1 / 2)" by code_simp
  have inner: "draw_alive (11 / 20)"
  proof -
    have "\<exists>(a, b) \<in> set (widen (- (2 powi (- 50) / 10)) alive_intervals).
        a \<le> (11 / 20 :: real) \<and> (11 / 20 :: real) < b"
      by (simp add: widen_def alive_intervals_def)
    with inst show ?thesis by simp
  qed
  have quarter: "\<not> draw_alive (1 / 4)"
  proof -
    have "(0::int) \<le> 2 \<and> (2::int) \<le> 9 \<and> real_of_int 2 + 2 powi (- 50) \<le> 1 / 4 * 10
        \<and> (1 / 4 * 10 :: real) < real_of_int 2 + 1 - 2 powi (- 50)"
      by simp
    with inst have "draw_alive (1 / 4) = (\<lfloor>js_fmod (1 / 4 * 10) 2\<rfloor> \<noteq> 0)" by blast
    moreover have "\<lfloor>js_fmod (1 / 4 * 10) 2\<rfloor> = 0" by (simp add: js_fmod_def)
    ultimately show ?thesis by simp
  qed
  have pos: "draw_pos (\<lambda>n. 1 / 2) 0 n = 2 * n" for n
    by (induction n) (simp_all add: half Let_def)
  from inst wf obtain g' where run: "randomize sparkle = Inr g'"
    and rp: "rnd_pos g' = draw_pos (rnd sparkle) (rnd_pos sparkle) (xLength sparkle * yLength sparkle)"
    and cells: "\<forall>i<xLength sparkle. \<forall>j<yLength sparkle.
               cell (population g') (int i) (int j)
               = (if draw_alive (rnd sparkle
                       (draw_pos (rnd sparkle) (rnd_pos sparkle) (i * yLength sparkle + j)))
                  then Some True else cell (population sparkle) (int i) (int j))"
    by blast
  from cells have all: "cell (population g') (int i) (int j) = Some True"
    if "i < 2" "j < 2" for i j
    using that by (simp add: d half)
  from all[of 0 1] all[of 1 1]
  have "cell (population g') 0 1 = Some True" "cell (population g') 1 1 = Some True"
    by simp_all
  moreover from rp have "rnd_pos g' = 8" by (simp add: d pos)
  moreover have "draw_pos (rnd sparkle) (rnd_pos sparkle) 1
      < draw_pos (rnd sparkle) (rnd_pos sparkle) 3"
  proof -
    from inst have "\<forall>m n. m < n \<longrightarrow>
        draw_pos (rnd sparkle) (rnd_pos sparkle) m < draw_pos (rnd sparkle) (rnd_pos sparkle) n"
      by (elim conjE)
    moreover have "(1::nat) < 3" by simp
    ultimately show ?thesis by blast
  qed
  ultimately show ?thesis using wf run half inner quarter by auto
qed

text \<open>
  Claim C9 as stated, with the exact threshold and a set of measure exactly one half,
  fails. The draw \<^verbatim>\<open>0.7\<close> is below seven tenths, so the floor of \<open>10 r\<close> modulo 2 is zero
  in exact arithmetic; \<^verbatim>\<open>0.7 * 10\<close> rounds to \<open>7\<close>, and \<^verbatim>\<open>randomize\<close> populates the cell.
  The draw \<^verbatim>\<open>0.6\<close> is below six tenths and passes the exact threshold; \<^verbatim>\<open>0.6 * 10\<close> rounds
  to \<open>6\<close>, and the cell is not populated.
\<close>

theorem randomize_rounds_at_seven_tenths:
  "0 \<le> near_seven_tenths \<and> near_seven_tenths < 1
   \<and> \<lfloor>js_fmod (near_seven_tenths * 10) 2\<rfloor> = 0
   \<and> draw_alive near_seven_tenths
   \<and> cell (population edge_draw) 0 1 = Some False
   \<and> map_sum id (\<lambda>s. cell (population s) 0 1) (randomize edge_draw) = Inr (Some True)
   \<and> 0 \<le> near_six_tenths \<and> near_six_tenths < 1
   \<and> \<lfloor>js_fmod (near_six_tenths * 10) 2\<rfloor> = 1
   \<and> \<not> draw_alive near_six_tenths"
  by code_simp

text \<open>
  Claim C10. \<^verbatim>\<open>randomize\<close> only ever writes \<^verbatim>\<open>true\<close>: whatever the grid and the draws, when
  it returns every cell holds its value from before or \<^verbatim>\<open>true\<close>, so a cell alive before is
  alive after; it returns on every grid whose columns exist; and a cell whose draw does
  not select it is left as it was.
\<close>

theorem randomize_additive:
  "(\<forall>g'. randomize g = Inr g' \<longrightarrow>
       (\<forall>x y. cell (population g') x y = cell (population g) x y
               \<or> cell (population g') x y = Some True)
     \<and> (\<forall>x y. alive_at g x y \<longrightarrow> alive_at g' x y))
   \<and> (well_formed g \<longrightarrow> (\<exists>g'. randomize g = Inr g'))
   \<and> (\<not> draw_alive (rnd g (rnd_pos g)) \<longrightarrow>
        randomize_cell i j g = Inr (g\<lparr>rnd_pos := Suc (rnd_pos g)\<rparr>))"
proof (intro conjI allI impI)
  fix g' x y
  assume run: "randomize g = Inr g'"
  define P where "P s \<longleftrightarrow>
      (\<forall>x y. cell (population s) x y = cell (population g) x y
               \<or> cell (population s) x y = Some True)" for s :: game
  have "P g'"
  proof (rule forM_preserves[where P = P and body = "\<lambda>(i, j). randomize_cell i j"])
    show "P g" unfolding P_def by simp
  next
    fix c s s'
    assume Ps: "P s" and step: "(\<lambda>(i, j). randomize_cell i j) c s = Inr s'"
    obtain i j where c: "c = (i, j)" by (cases c)
    from step have "randomize_cell i j s = Inr s'" by (simp add: c)
    from randomize_cell_result[OF this] Ps show "P s'" unfolding P_def by auto
  next
    show "forM (List.product [0..<xLength g] [0..<yLength g])
            (\<lambda>(i, j). randomize_cell i j) g = Inr g'"
      using run unfolding randomize_def forM_product .
  qed
  then show "cell (population g') x y = cell (population g) x y
               \<or> cell (population g') x y = Some True"
    unfolding P_def by blast
  assume "alive_at g x y"
  with \<open>P g'\<close> show "alive_at g' x y"
    unfolding P_def alive_at_def truthy_def by metis
next
  assume "well_formed g"
  then show "\<exists>g'. randomize g = Inr g'" by (rule randomize_returns)
next
  assume "\<not> draw_alive (rnd g (rnd_pos g))"
  then show "randomize_cell i j g = Inr (g\<lparr>rnd_pos := Suc (rnd_pos g)\<rparr>)"
    by (simp add: randomize_cell_def Let_def)
qed

theorem randomize_additive_witness:
  "well_formed sparkle \<and> alive_at sparkle 0 0
   \<and> (\<exists>g'. randomize sparkle = Inr g' \<and> alive_at g' 0 0)
   \<and> map_sum id population (randomize sparkle)
       = Inr [Some [Some True, Some True], Some [Some True, Some True]]
   \<and> \<not> draw_alive (rnd corner_only (rnd_pos corner_only))
   \<and> randomize_cell 1 1 corner_only = Inr (corner_only\<lparr>rnd_pos := Suc (rnd_pos corner_only)\<rparr>)"
proof -
  note inst = randomize_additive[of sparkle 0 0]
  have wf: "well_formed sparkle"
    using well_formed_corner_only by (simp add: well_formed_def sparkle_def)
  have before: "alive_at sparkle 0 0"
    by (simp add: alive_at_def cell_def sparkle_def corner_only_def game_of_def arr_get_def
        truthy_def)
  from inst wf obtain g' where g': "randomize sparkle = Inr g'" by blast
  with inst before have after: "alive_at g' 0 0" by blast
  have all: "map_sum id population (randomize sparkle)
       = Inr [Some [Some True, Some True], Some [Some True, Some True]]"
    by code_simp
  have zero: "rnd corner_only (rnd_pos corner_only) = 0"
    by (simp add: corner_only_def game_of_def)
  have "\<not> draw_alive 0" by (simp add: draw_alive_def js_fmod_def fl64_def)
  then have dead: "\<not> draw_alive (rnd corner_only (rnd_pos corner_only))" by (simp add: zero)
  with randomize_additive[of corner_only 1 1]
  have "randomize_cell 1 1 corner_only = Inr (corner_only\<lparr>rnd_pos := Suc (rnd_pos corner_only)\<rparr>)"
    by blast
  with wf before g' after all dead show ?thesis by (intro conjI exI[of _ g'])
qed

end
